theory Spec2Isabelle
  imports Main "HOL-Library.Word"
begin

unbundle bit_operations_syntax

section \<open>Data model of \<open>bignum.c\<close>\<close>

text \<open>
  A limb (\<open>t_uint\<close>) is an \<open>'a word\<close>; the limb width \<open>biL\<close> is \<open>LENGTH('a)\<close>, so
  that every definition covers the 32-bit and the 64-bit build. A signed scalar
  (\<open>t_sint\<close>) is a word of the same width read in two's complement. Sizes and indices
  (\<open>size_t\<close>) are natural numbers: limb counts are bounded by
  \<open>POLARSSL_MPI_MAX_LIMBS\<close>, far below the range of \<open>size_t\<close>.

  The structure \<open>mpi_t\<close> has the fields \<open>s\<close> (sign), \<open>n\<close> (number of limbs) and
  \<open>p\<close> (pointer to the limbs). The record keeps \<open>s\<close> and the limb array; \<open>n\<close> is the
  length of the array, and \<open>p == NULL\<close> is the empty array (the code keeps
  \<open>n = 0\<close> exactly when \<open>p == NULL\<close>).
\<close>

record 'l mpi =
  mpi_s :: int
  mpi_p :: "'l list"

definition mpi_n :: "'a::len word mpi \<Rightarrow> nat" where
  "mpi_n X = length (mpi_p X)"

text \<open>
  The return codes of the library, and \<open>FAULT\<close> for an access outside an array (undefined
  behaviour in C, never a return code).
\<close>

datatype error =
    MALLOC_FAILED | BAD_INPUT_DATA | BUFFER_TOO_SMALL | INVALID_CHARACTER
  | NEGATIVE_VALUE | DIVISION_BY_ZERO | NOT_ACCEPTABLE | FAULT

text \<open>
  The compile-time configuration, declared in headers that are not part of the sources at
  hand: \<open>POLARSSL_MPI_MAX_LIMBS\<close>, \<open>POLARSSL_MPI_WINDOW_SIZE\<close> and whether the double-width
  type \<open>t_udbl\<close> exists (\<open>POLARSSL_HAVE_UDBL\<close>). They are parameters of the model.
  \<open>memory_alloc\<close> is taken to succeed; the limit \<open>MAX_LIMBS\<close> is checked as in the code.
\<close>

record config =
  MAX_LIMBS :: nat
  WINDOW_SIZE :: nat
  HAVE_UDBL :: bool

text \<open>\<open>MPI_CHK\<close>: run a step and leave with its error code if it fails.\<close>

definition chk :: "error + 'a \<Rightarrow> ('a \<Rightarrow> error + 'b) \<Rightarrow> error + 'b" where
  "chk m f = (case m of Inl e \<Rightarrow> Inl e | Inr x \<Rightarrow> f x)"

text \<open>The same for the steps that contain a \<open>while\<close> loop: \<open>None\<close> is a loop that never ends.\<close>

definition chko :: "(error + 'a) option \<Rightarrow> ('a \<Rightarrow> (error + 'b) option) \<Rightarrow> (error + 'b) option" where
  "chko m f = (case m of None \<Rightarrow> None | Some (Inl e) \<Rightarrow> Some (Inl e) | Some (Inr x) \<Rightarrow> f x)"

text \<open>Array read and write with the bounds made explicit.\<close>

definition ld :: "'b list \<Rightarrow> nat \<Rightarrow> error + 'b" where
  "ld xs i = (if i < length xs then Inr (xs ! i) else Inl FAULT)"

definition st :: "'b list \<Rightarrow> nat \<Rightarrow> 'b \<Rightarrow> error + 'b list" where
  "st xs i v = (if i < length xs then Inr (xs[i := v]) else Inl FAULT)"

section \<open>Initialisation, growth, copy\<close>

definition mpi_init :: "'a::len word mpi" where
  "mpi_init = \<lparr>mpi_s = 1, mpi_p = []\<rparr>"

definition mpi_grow :: "config \<Rightarrow> 'a::len word mpi \<Rightarrow> nat \<Rightarrow> error + 'a word mpi" where
  "mpi_grow cfg X nblimbs =
     (if nblimbs > MAX_LIMBS cfg then Inl MALLOC_FAILED
      else if mpi_n X < nblimbs
        then Inr (X\<lparr>mpi_p := mpi_p X @ replicate (nblimbs - mpi_n X) 0\<rparr>)
        else Inr X)"

text \<open>The loop \<open>for( i = n - 1; i > 0; i-- ) if( p[i] != 0 ) break;\<close> started at \<open>i\<close>.\<close>

fun top_limb :: "'a::len word list \<Rightarrow> nat \<Rightarrow> nat" where
  "top_limb xs 0 = 0"
| "top_limb xs (Suc i) = (if xs ! Suc i \<noteq> 0 then Suc i else top_limb xs i)"

text \<open>The loop \<open>for( i = n; i > 0; i-- ) if( p[i - 1] != 0 ) break;\<close> started at \<open>i\<close>.\<close>

fun used_limbs :: "'a::len word list \<Rightarrow> nat \<Rightarrow> nat" where
  "used_limbs xs 0 = 0"
| "used_limbs xs (Suc i) = (if xs ! i \<noteq> 0 then Suc i else used_limbs xs i)"

text \<open>
  Aliasing. An argument of type \<open>mpi_t *\<close> is an object, and the model passes its value. Where
  the code compares the addresses of two arguments (\<open>X == Y\<close> in \<open>mpi_copy\<close>; \<open>X == A\<close>,
  \<open>X == B\<close> in \<open>mpi_add_abs\<close>, \<open>mpi_sub_abs\<close> and \<open>mpi_mul_mpi\<close>), the model takes the outcome
  of the comparison as a Boolean argument: \<open>True\<close> says that the two arguments are one object,
  and then the caller passes the same value for both. Where the code makes no such test the
  model passes values only: the text of the function says which arguments are distinct
  objects, or the function reads an argument only before it writes the other (as \<open>B\<close> in
  \<open>mpi_montmul( X, X, ... )\<close>) and the result is the same for one object and for two.

  \<open>mpi_copy\<close>; \<open>same\<close> is \<open>X == Y\<close>.
\<close>

definition mpi_copy :: "config \<Rightarrow> bool \<Rightarrow> 'a::len word mpi \<Rightarrow> 'a word mpi \<Rightarrow> error + 'a word mpi" where
  "mpi_copy cfg same X Y =
     (if same then Inr X
      else if mpi_p Y = [] then Inr mpi_init
      else let i = top_limb (mpi_p Y) (mpi_n Y - 1) + 1 in
        chk (mpi_grow cfg (X\<lparr>mpi_s := mpi_s Y\<rparr>) i) (\<lambda>X.
          Inr (X\<lparr>mpi_p := take i (mpi_p Y) @ replicate (mpi_n X - i) 0\<rparr>)))"

text \<open>
  \<open>mpi_safe_cond_assign\<close>: \<open>assign\<close> is a byte, normalised to 0 or 1; the sign is blended in
  \<open>int\<close>, each limb in \<open>t_uint\<close>.
\<close>

definition mpi_safe_cond_assign ::
  "config \<Rightarrow> 'a::len word mpi \<Rightarrow> 'a word mpi \<Rightarrow> 8 word \<Rightarrow> error + 'a word mpi" where
  "mpi_safe_cond_assign cfg X Y assign0 =
     (let assign = (if assign0 \<noteq> 0 then 1 else 0 :: nat) in
      chk (mpi_grow cfg X (mpi_n Y)) (\<lambda>X.
        Inr \<lparr>mpi_s = mpi_s X * (1 - int assign) + mpi_s Y * int assign,
             mpi_p = map (\<lambda>i. if i < mpi_n Y
                                then mpi_p X ! i * (1 - of_nat assign) + mpi_p Y ! i * of_nat assign
                                else mpi_p X ! i * (1 - of_nat assign)) [0 ..< mpi_n X]\<rparr>))"

text \<open>\<open>mpi_lset\<close>: \<open>z\<close> is a \<open>t_sint\<close>.\<close>

definition mpi_lset :: "config \<Rightarrow> 'a::len word mpi \<Rightarrow> 'a word \<Rightarrow> error + 'a word mpi" where
  "mpi_lset cfg X z =
     chk (mpi_grow cfg X 1) (\<lambda>X.
       Inr (X\<lparr>mpi_p := (replicate (mpi_n X) 0)[0 := (if z <s 0 then - z else z)],
              mpi_s := (if z <s 0 then - 1 else 1)\<rparr>))"

section \<open>Bits\<close>

definition mpi_get_bit :: "'a::len word mpi \<Rightarrow> nat \<Rightarrow> int" where
  "mpi_get_bit X pos =
     (if mpi_n X * LENGTH('a) \<le> pos then 0
      else uint (drop_bit (pos mod LENGTH('a)) (mpi_p X ! (pos div LENGTH('a))) AND 1))"

text \<open>\<open>mpi_lsb\<close>: the inner loop over the bits \<open>j\<close> of one limb, then the loop over the limbs.\<close>

function lsb_bits :: "'a::len word \<Rightarrow> nat \<Rightarrow> nat option" where
  "lsb_bits x j =
     (if j < LENGTH('a)
      then (if drop_bit j x AND 1 \<noteq> 0 then Some j else lsb_bits x (Suc j))
      else None)"
  by pat_completeness auto
termination
  by (relation "measure (\<lambda>(x :: 'a word, j). LENGTH('a) - j)") auto

fun lsb_limbs :: "'a::len word list \<Rightarrow> nat \<Rightarrow> nat" where
  "lsb_limbs [] count = 0"
| "lsb_limbs (x # xs) count =
     (case lsb_bits x 0 of Some j \<Rightarrow> count + j | None \<Rightarrow> lsb_limbs xs (count + LENGTH('a)))"

definition mpi_lsb :: "'a::len word mpi \<Rightarrow> nat" where
  "mpi_lsb X = lsb_limbs (mpi_p X) 0"

text \<open>
  \<open>mpi_msb\<close>: the loop \<open>for( j = biL; j > 0; j-- )\<close> over the bits of the top limb. With
  \<open>n = 0\<close> the code reads \<open>p[SIZE_MAX]\<close> from a null pointer.
\<close>

fun top_bit :: "'a::len word \<Rightarrow> nat \<Rightarrow> nat" where
  "top_bit x 0 = 0"
| "top_bit x (Suc j) = (if drop_bit j x AND 1 \<noteq> 0 then Suc j else top_bit x j)"

definition mpi_msb :: "'a::len word mpi \<Rightarrow> error + nat" where
  "mpi_msb X =
     (if mpi_p X = [] then Inl FAULT
      else let i = top_limb (mpi_p X) (mpi_n X - 1) in
        Inr (i * LENGTH('a) + top_bit (mpi_p X ! i) LENGTH('a)))"

definition mpi_size :: "'a::len word mpi \<Rightarrow> error + nat" where
  "mpi_size X = chk (mpi_msb X) (\<lambda>m. Inr (drop_bit 3 (m + 7)))"

section \<open>Binary import and export\<close>

text \<open>The loop \<open>for( n = 0; n < buflen; n++ ) if( buf[n] != 0 ) break;\<close>.\<close>

fun lead_zeros :: "8 word list \<Rightarrow> nat" where
  "lead_zeros [] = 0"
| "lead_zeros (b # bs) = (if b \<noteq> 0 then 0 else Suc (lead_zeros bs))"

text \<open>
  The loop \<open>for( i = buflen, j = 0; i > n; i--, j++ )\<close> of \<open>mpi_read_binary\<close>;
  \<open>ciL\<close> is \<open>LENGTH('a) div 8\<close>.
\<close>

fun read_loop :: "8 word list \<Rightarrow> nat \<Rightarrow> nat \<Rightarrow> nat \<Rightarrow> 'a::len word list \<Rightarrow> error + 'a word list" where
  "read_loop buf n 0 j xs = Inr xs"
| "read_loop buf n (Suc i) j xs =
     (if Suc i > n then
        chk (ld xs (j div (LENGTH('a) div 8))) (\<lambda>x.
        chk (st xs (j div (LENGTH('a) div 8))
               (x OR push_bit (push_bit 3 (j mod (LENGTH('a) div 8))) (ucast (buf ! i)))) (\<lambda>xs.
        read_loop buf n i (Suc j) xs))
      else Inr xs)"

definition mpi_read_binary :: "config \<Rightarrow> 'a::len word mpi \<Rightarrow> 8 word list \<Rightarrow> error + 'a word mpi" where
  "mpi_read_binary cfg X buf =
     (let buflen = length buf; n = lead_zeros buf in
      chk (mpi_grow cfg X ((buflen - n + LENGTH('a) div 8 - 1) div (LENGTH('a) div 8))) (\<lambda>X.
      chk (mpi_lset cfg X 0) (\<lambda>X.
      chk (read_loop buf n buflen 0 (mpi_p X)) (\<lambda>xs.
      Inr (X\<lparr>mpi_p := xs\<rparr>)))))"

text \<open>The loop \<open>for( i = buflen - 1, j = 0; n > 0; --i, ++j, --n )\<close> of \<open>mpi_write_binary\<close>.\<close>

fun write_loop :: "'a::len word list \<Rightarrow> 8 word list \<Rightarrow> nat \<Rightarrow> nat \<Rightarrow> nat \<Rightarrow> error + 8 word list" where
  "write_loop xs buf i j 0 = Inr buf"
| "write_loop xs buf i j (Suc n) =
     chk (ld xs (j div (LENGTH('a) div 8))) (\<lambda>x.
     chk (st buf i (ucast (drop_bit (push_bit 3 (j mod (LENGTH('a) div 8))) x))) (\<lambda>buf.
     write_loop xs buf (i - 1) (Suc j) n))"

text \<open>The buffer is an output: only its length \<open>buflen\<close> is read.\<close>

definition mpi_write_binary :: "'a::len word mpi \<Rightarrow> nat \<Rightarrow> error + 8 word list" where
  "mpi_write_binary X buflen =
     chk (mpi_size X) (\<lambda>n.
       if buflen < n then Inl BUFFER_TOO_SMALL
       else write_loop (mpi_p X) (replicate buflen 0) (buflen - 1) 0 n)"

section \<open>Shifts\<close>

text \<open>The two loops of the limb-granular left shift, from \<open>i\<close> down to 0.\<close>

fun shift_l_limbs :: "nat \<Rightarrow> nat \<Rightarrow> 'a::len word list \<Rightarrow> 'a word list" where
  "shift_l_limbs v0 0 xs = xs"
| "shift_l_limbs v0 (Suc i) xs =
     (if Suc i > v0 then shift_l_limbs v0 i (xs[i := xs ! (i - v0)])
      else shift_l_limbs v0 i (xs[i := 0]))"

text \<open>The loop of the bit-granular left shift, walking up from limb \<open>v0\<close>.\<close>

fun shift_l_bits :: "nat \<Rightarrow> 'a::len word list \<Rightarrow> 'a word \<Rightarrow> 'a word list" where
  "shift_l_bits t1 [] r0 = []"
| "shift_l_bits t1 (x # xs) r0 =
     (push_bit t1 x OR r0) # shift_l_bits t1 xs (drop_bit (LENGTH('a) - t1) x)"

definition mpi_shift_l :: "config \<Rightarrow> 'a::len word mpi \<Rightarrow> nat \<Rightarrow> error + 'a word mpi" where
  "mpi_shift_l cfg X count =
     (let v0 = count div LENGTH('a); t1 = count AND (LENGTH('a) - 1) in
      chk (mpi_msb X) (\<lambda>m.
      let i = m + count in
      chk (if mpi_n X * LENGTH('a) < i
           then mpi_grow cfg X ((i + LENGTH('a) - 1) div LENGTH('a)) else Inr X) (\<lambda>X.
      let xs = (if v0 > 0 then shift_l_limbs v0 (mpi_n X) (mpi_p X) else mpi_p X);
          xs = (if t1 > 0 then take v0 xs @ shift_l_bits t1 (drop v0 xs) 0 else xs)
      in Inr (X\<lparr>mpi_p := xs\<rparr>))))"

text \<open>The limb-granular right shift: the two loops walking up from \<open>i\<close>.\<close>

function shift_r_limbs :: "nat \<Rightarrow> nat \<Rightarrow> 'a::len word list \<Rightarrow> 'a word list" where
  "shift_r_limbs v0 i xs =
     (if i < length xs - v0 then shift_r_limbs v0 (Suc i) (xs[i := xs ! (i + v0)])
      else if i < length xs then shift_r_limbs v0 (Suc i) (xs[i := 0])
      else xs)"
  by pat_completeness auto
termination
  by (relation "measure (\<lambda>(v0, i, xs). length xs - i)") auto

text \<open>The bit-granular right shift: the loop \<open>for( i = X->n; i > 0; i-- )\<close>.\<close>

fun shift_r_bits :: "nat \<Rightarrow> nat \<Rightarrow> 'a::len word list \<Rightarrow> 'a word \<Rightarrow> 'a word list" where
  "shift_r_bits v1 0 xs r0 = xs"
| "shift_r_bits v1 (Suc i) xs r0 =
     shift_r_bits v1 i (xs[i := drop_bit v1 (xs ! i) OR r0]) (push_bit (LENGTH('a) - v1) (xs ! i))"

definition mpi_shift_r :: "config \<Rightarrow> 'a::len word mpi \<Rightarrow> nat \<Rightarrow> error + 'a word mpi" where
  "mpi_shift_r cfg X count =
     (let v0 = count div LENGTH('a); v1 = count AND (LENGTH('a) - 1) in
      if v0 > mpi_n X \<or> (v0 = mpi_n X \<and> v1 > 0) then mpi_lset cfg X 0
      else
        let xs = (if v0 > 0 then shift_r_limbs v0 0 (mpi_p X) else mpi_p X);
            xs = (if v1 > 0 then shift_r_bits v1 (mpi_n X) xs 0 else xs)
        in Inr (X\<lparr>mpi_p := xs\<rparr>))"

section \<open>Comparison\<close>

fun cmp_limbs :: "'a::len word list \<Rightarrow> 'a word list \<Rightarrow> nat \<Rightarrow> int \<Rightarrow> int" where
  "cmp_limbs xs ys 0 sg = 0"
| "cmp_limbs xs ys (Suc i) sg =
     (if xs ! i > ys ! i then sg
      else if xs ! i < ys ! i then - sg
      else cmp_limbs xs ys i sg)"

definition mpi_cmp_abs :: "'a::len word mpi \<Rightarrow> 'a word mpi \<Rightarrow> int" where
  "mpi_cmp_abs X Y =
     (let i = used_limbs (mpi_p X) (mpi_n X); j = used_limbs (mpi_p Y) (mpi_n Y) in
      if i = 0 \<and> j = 0 then 0
      else if i > j then 1
      else if j > i then - 1
      else cmp_limbs (mpi_p X) (mpi_p Y) i 1)"

definition mpi_cmp_mpi :: "'a::len word mpi \<Rightarrow> 'a word mpi \<Rightarrow> int" where
  "mpi_cmp_mpi X Y =
     (let i = used_limbs (mpi_p X) (mpi_n X); j = used_limbs (mpi_p Y) (mpi_n Y) in
      if i = 0 \<and> j = 0 then 0
      else if i > j then mpi_s X
      else if j > i then - mpi_s Y
      else if mpi_s X > 0 \<and> mpi_s Y < 0 then 1
      else if mpi_s Y > 0 \<and> mpi_s X < 0 then - 1
      else cmp_limbs (mpi_p X) (mpi_p Y) i (mpi_s X))"

text \<open>The one-limb MPI that \<open>mpi_cmp_int\<close>, \<open>mpi_mul_int\<close> and others build on the stack.\<close>

definition int_mpi :: "'a::len word \<Rightarrow> 'a word mpi" where
  "int_mpi z = \<lparr>mpi_s = (if z <s 0 then - 1 else 1), mpi_p = [if z <s 0 then - z else z]\<rparr>"

definition mpi_cmp_int :: "'a::len word mpi \<Rightarrow> 'a word \<Rightarrow> int" where
  "mpi_cmp_int X z = mpi_cmp_mpi X (int_mpi z)"

section \<open>Addition and subtraction\<close>

text \<open>
  In the functions below \<open>xa\<close> is \<open>X == A\<close> and \<open>xb\<close> is \<open>X == B\<close>.

  \<open>mpi_add_abs\<close>, the loop \<open>while( c != 0 )\<close>: the carry runs up the limbs of \<open>X\<close> from
  index \<open>i\<close>; at the end of the array \<open>X\<close> grows by one limb.
\<close>

function add_carry :: "config \<Rightarrow> nat \<Rightarrow> 'a::len word list \<Rightarrow> 'a word \<Rightarrow> error + 'a word list" where
  "add_carry cfg i ps c =
     (if c = 0 then Inr ps
      else case ps of
        [] \<Rightarrow>
          if Suc i > MAX_LIMBS cfg then Inl MALLOC_FAILED
          else chk (add_carry cfg (Suc i) [] (of_bool (0 + c < c))) (\<lambda>r. Inr ((0 + c) # r))
      | p # ps' \<Rightarrow>
          chk (add_carry cfg (Suc i) ps' (of_bool (p + c < c))) (\<lambda>r. Inr ((p + c) # r)))"
  by pat_completeness auto
termination
  by (relation "measure (\<lambda>(cfg, i, ps, c). 2 * length ps + (if c = 0 then 0 else 1))") auto

text \<open>The loop \<open>for( i = 0; i < j; i++, o++, p++ )\<close>; \<open>bs\<close> are the limbs \<open>o\<close> walks over.\<close>

fun add_limbs :: "config \<Rightarrow> nat \<Rightarrow> 'a::len word list \<Rightarrow> 'a word list \<Rightarrow> 'a word \<Rightarrow> error + 'a word list" where
  "add_limbs cfg i [] ps c = add_carry cfg i ps c"
| "add_limbs cfg i (b # bs) [] c = Inl FAULT"
| "add_limbs cfg i (b # bs) (p # ps) c =
     (let p1 = p + c; c1 = of_bool (p1 < c);
          p2 = p1 + b; c2 = c1 + of_bool (p2 < b)
      in chk (add_limbs cfg (Suc i) bs ps c2) (\<lambda>r. Inr (p2 # r)))"

text \<open>
  The same loop when \<open>o\<close> and \<open>p\<close> walk over one array (\<open>X\<close>, \<open>A\<close> and \<open>B\<close> are one object):
  \<open>*o\<close> is read after \<open>*p += c\<close> has changed it; \<open>j\<close> is the number of limbs still to add.
\<close>

fun add_self :: "config \<Rightarrow> nat \<Rightarrow> nat \<Rightarrow> 'a::len word list \<Rightarrow> 'a word \<Rightarrow> error + 'a word list" where
  "add_self cfg i 0 ps c = add_carry cfg i ps c"
| "add_self cfg i (Suc j) [] c = Inl FAULT"
| "add_self cfg i (Suc j) (p # ps) c =
     (let p1 = p + c; c1 = of_bool (p1 < c);
          p2 = p1 + p1; c2 = c1 + of_bool (p2 < p2)
      in chk (add_self cfg (Suc i) j ps c2) (\<lambda>r. Inr (p2 # r)))"

text \<open>
  \<open>mpi_add_abs\<close>. After \<open>if( X == B ) { T = A; A = X; B = T; }\<close> the test \<open>X != A\<close> holds when
  neither \<open>X == A\<close> nor \<open>X == B\<close> did, and \<open>B\<close> is the object \<open>X\<close> when both did.
\<close>

definition mpi_add_abs ::
  "config \<Rightarrow> bool \<Rightarrow> bool \<Rightarrow> 'a::len word mpi \<Rightarrow> 'a word mpi \<Rightarrow> 'a word mpi \<Rightarrow> error + 'a word mpi" where
  "mpi_add_abs cfg xa xb X A0 B0 =
     (let A = (if xb then X else A0); B = (if xb then A0 else B0) in
      chk (if \<not> xa \<and> \<not> xb then mpi_copy cfg False X A else Inr X) (\<lambda>X.
      let X = X\<lparr>mpi_s := 1\<rparr>;
          B = (if xa \<and> xb then X else B);
          j = used_limbs (mpi_p B) (mpi_n B) in
      chk (mpi_grow cfg X j) (\<lambda>X.
      chk (if xa \<and> xb then add_self cfg 0 j (mpi_p X) 0
           else add_limbs cfg 0 (take j (mpi_p B)) (mpi_p X) 0) (\<lambda>xs.
      Inr (X\<lparr>mpi_p := xs\<rparr>)))))"

text \<open>\<open>mpi_sub_hlp\<close>: the loop \<open>while( c != 0 )\<close>, then the loop over the \<open>n\<close> limbs of \<open>s\<close>.\<close>

fun sub_borrow :: "'a::len word list \<Rightarrow> 'a word \<Rightarrow> error + 'a word list" where
  "sub_borrow [] c = (if c = 0 then Inr [] else Inl FAULT)"
| "sub_borrow (d # ds) c =
     (if c = 0 then Inr (d # ds)
      else chk (sub_borrow ds (of_bool (d < c))) (\<lambda>r. Inr ((d - c) # r)))"

fun sub_limbs :: "nat \<Rightarrow> 'a::len word list \<Rightarrow> 'a word list \<Rightarrow> 'a word \<Rightarrow> error + 'a word list" where
  "sub_limbs 0 ss ds c = sub_borrow ds c"
| "sub_limbs (Suc n) (s # ss) (d # ds) c =
     (let z = of_bool (d < c); d1 = d - c;
          c' = of_bool (d1 < s) + z; d2 = d1 - s
      in chk (sub_limbs n ss ds c') (\<lambda>r. Inr (d2 # r)))"
| "sub_limbs (Suc n) ss ds c = Inl FAULT"

definition mpi_sub_hlp :: "nat \<Rightarrow> 'a::len word list \<Rightarrow> 'a word list \<Rightarrow> error + 'a word list" where
  "mpi_sub_hlp n ss ds = sub_limbs n ss ds 0"

definition mpi_sub_abs ::
  "config \<Rightarrow> bool \<Rightarrow> bool \<Rightarrow> 'a::len word mpi \<Rightarrow> 'a word mpi \<Rightarrow> 'a word mpi \<Rightarrow> error + 'a word mpi" where
  "mpi_sub_abs cfg xa xb X A B0 =
     (if mpi_cmp_abs A B0 < 0 then Inl NEGATIVE_VALUE
      else
        chk (if xb then mpi_copy cfg False mpi_init B0 else Inr B0) (\<lambda>B.
        chk (if \<not> xa then mpi_copy cfg False X A else Inr X) (\<lambda>X.
        let X = X\<lparr>mpi_s := 1\<rparr>; n = used_limbs (mpi_p B) (mpi_n B) in
        chk (mpi_sub_hlp n (mpi_p B) (mpi_p X)) (\<lambda>xs.
        Inr (X\<lparr>mpi_p := xs\<rparr>)))))"

definition mpi_add_mpi ::
  "config \<Rightarrow> bool \<Rightarrow> bool \<Rightarrow> 'a::len word mpi \<Rightarrow> 'a word mpi \<Rightarrow> 'a word mpi \<Rightarrow> error + 'a word mpi" where
  "mpi_add_mpi cfg xa xb X A B =
     (let sg = mpi_s A in
      if mpi_s A * mpi_s B < 0 then
        (if mpi_cmp_abs A B \<ge> 0
         then chk (mpi_sub_abs cfg xa xb X A B) (\<lambda>X. Inr (X\<lparr>mpi_s := sg\<rparr>))
         else chk (mpi_sub_abs cfg xb xa X B A) (\<lambda>X. Inr (X\<lparr>mpi_s := - sg\<rparr>)))
      else chk (mpi_add_abs cfg xa xb X A B) (\<lambda>X. Inr (X\<lparr>mpi_s := sg\<rparr>)))"

definition mpi_sub_mpi ::
  "config \<Rightarrow> bool \<Rightarrow> bool \<Rightarrow> 'a::len word mpi \<Rightarrow> 'a word mpi \<Rightarrow> 'a word mpi \<Rightarrow> error + 'a word mpi" where
  "mpi_sub_mpi cfg xa xb X A B =
     (let sg = mpi_s A in
      if mpi_s A * mpi_s B > 0 then
        (if mpi_cmp_abs A B \<ge> 0
         then chk (mpi_sub_abs cfg xa xb X A B) (\<lambda>X. Inr (X\<lparr>mpi_s := sg\<rparr>))
         else chk (mpi_sub_abs cfg xb xa X B A) (\<lambda>X. Inr (X\<lparr>mpi_s := - sg\<rparr>)))
      else chk (mpi_add_abs cfg xa xb X A B) (\<lambda>X. Inr (X\<lparr>mpi_s := sg\<rparr>)))"

section \<open>Multiplication\<close>

text \<open>
  Modelled from the spec: the macros \<open>MULADDC_INIT\<close>, \<open>MULADDC_CORE\<close> and \<open>MULADDC_STOP\<close>
  of \<open>bn_mul.h\<close>, which is not among the sources. One step multiplies a limb of \<open>s\<close> by
  \<open>b\<close>, adds the carry and the limb of \<open>d\<close>, stores the low word in \<open>d\<close> and keeps the
  high word as the next carry, on every architecture. The result is the pair (stored
  limb, carry); the double-width product is computed in \<open>int\<close>.
\<close>

definition muladdc_core :: "'a::len word \<Rightarrow> 'a word \<Rightarrow> 'a word \<Rightarrow> 'a word \<Rightarrow> 'a word \<times> 'a word" where
  "muladdc_core s b c d =
     (let r = uint s * uint b + uint c + uint d
      in (word_of_int r, word_of_int (r div 2 ^ LENGTH('a))))"

text \<open>
  \<open>mpi_mul_hlp\<close>: the final loop \<open>do { *d += c; c = ( *d < c ); d++; } while( c != 0 )\<close>,
  and the unrolled loops over the \<open>i\<close> limbs of \<open>s\<close>, which run \<open>MULADDC_CORE\<close> once per limb.
\<close>

fun mul_carry :: "'a::len word list \<Rightarrow> 'a word \<Rightarrow> error + 'a word list" where
  "mul_carry [] c = Inl FAULT"
| "mul_carry (d # ds) c =
     (let d1 = d + c; c1 = (of_bool (d1 < c) :: 'a word) in
      if c1 \<noteq> 0 then chk (mul_carry ds c1) (\<lambda>r. Inr (d1 # r))
      else Inr (d1 # ds))"

fun mul_limbs :: "nat \<Rightarrow> 'a::len word list \<Rightarrow> 'a word list \<Rightarrow> 'a word \<Rightarrow> 'a word \<Rightarrow> error + 'a word list" where
  "mul_limbs 0 ss ds b c = mul_carry ds c"
| "mul_limbs (Suc i) (s # ss) (d # ds) b c =
     (case muladdc_core s b c d of
        (d', c') \<Rightarrow> chk (mul_limbs i ss ds b c') (\<lambda>r. Inr (d' # r)))"
| "mul_limbs (Suc i) ss ds b c = Inl FAULT"

definition mpi_mul_hlp :: "nat \<Rightarrow> 'a::len word list \<Rightarrow> 'a word list \<Rightarrow> 'a word \<Rightarrow> error + 'a word list" where
  "mpi_mul_hlp i ss ds b = mul_limbs i ss ds b 0"

text \<open>The loop \<open>for( i++; j > 0; j-- )\<close> of \<open>mpi_mul_mpi\<close>; \<open>i\<close> is the number of limbs of \<open>A\<close>.\<close>

fun mul_loop :: "nat \<Rightarrow> 'a::len word list \<Rightarrow> 'a word list \<Rightarrow> 'a word list \<Rightarrow> nat \<Rightarrow> error + 'a word list" where
  "mul_loop i as bs xs 0 = Inr xs"
| "mul_loop i as bs xs (Suc j) =
     chk (mpi_mul_hlp i as (drop j xs) (bs ! j)) (\<lambda>d.
     mul_loop i as bs (take j xs @ d) j)"

definition mpi_mul_mpi ::
  "config \<Rightarrow> bool \<Rightarrow> bool \<Rightarrow> 'a::len word mpi \<Rightarrow> 'a word mpi \<Rightarrow> 'a word mpi \<Rightarrow> error + 'a word mpi" where
  "mpi_mul_mpi cfg xa xb X A0 B0 =
     chk (if xa then mpi_copy cfg False mpi_init A0 else Inr A0) (\<lambda>A.
     chk (if xb then mpi_copy cfg False mpi_init B0 else Inr B0) (\<lambda>B.
     let i = used_limbs (mpi_p A) (mpi_n A); j = used_limbs (mpi_p B) (mpi_n B) in
     chk (mpi_grow cfg X (i + j)) (\<lambda>X.
     chk (mpi_lset cfg X 0) (\<lambda>X.
     chk (mul_loop i (mpi_p A) (mpi_p B) (mpi_p X) j) (\<lambda>xs.
     Inr (X\<lparr>mpi_p := xs, mpi_s := mpi_s A * mpi_s B\<rparr>))))))"

text \<open>
  \<open>mpi_mul_int\<close>: the scalar \<open>b\<close> is stored as it is in a one-limb MPI of sign \<open>+1\<close>, an
  object of the function's own.
\<close>

definition mpi_mul_int ::
  "config \<Rightarrow> bool \<Rightarrow> 'a::len word mpi \<Rightarrow> 'a word mpi \<Rightarrow> 'a word \<Rightarrow> error + 'a word mpi" where
  "mpi_mul_int cfg xa X A b = mpi_mul_mpi cfg xa False X A \<lparr>mpi_s = 1, mpi_p = [b]\<rparr>"

section \<open>Division\<close>

text \<open>
  \<open>mpi_div_mpi\<close>. The loop \<open>while( mpi_cmp_mpi( &X, &Y ) >= 0 )\<close> that counts in
  \<open>Z.p[n - t]\<close>; \<open>k\<close> is the index \<open>n - t\<close>.
\<close>

definition div_pre_body ::
  "config \<Rightarrow> 'a::len word mpi \<Rightarrow> 'a word mpi \<Rightarrow> 'a word mpi \<Rightarrow> nat \<Rightarrow> error + ('a word mpi \<times> 'a word mpi)" where
  "div_pre_body cfg X Y Z k =
     chk (ld (mpi_p Z) k) (\<lambda>z.
     chk (st (mpi_p Z) k (z + 1)) (\<lambda>zs.
     chk (mpi_sub_mpi cfg True False X X Y) (\<lambda>X.
     Inr (X, Z\<lparr>mpi_p := zs\<rparr>))))"

partial_function (option) div_pre_loop ::
  "config \<Rightarrow> 'a::len word mpi \<Rightarrow> 'a word mpi \<Rightarrow> 'a word mpi \<Rightarrow> nat \<Rightarrow> (error + ('a word mpi \<times> 'a word mpi)) option" where
  "div_pre_loop cfg X Y Z k =
     (if mpi_cmp_mpi X Y \<ge> 0 then
        (case div_pre_body cfg X Y Z k of
           Inl e \<Rightarrow> Some (Inl e)
         | Inr (X', Z') \<Rightarrow> div_pre_loop cfg X' Y Z' k)
      else Some (Inr (X, Z)))"

declare div_pre_loop.simps [code]

text \<open>
  The estimate of a quotient digit with the double-width type \<open>t_udbl\<close>: the two limbs
  \<open>X.p[i]\<close>, \<open>X.p[i - 1]\<close> divided by \<open>Y.p[t]\<close>, capped at \<open>2^biL - 1\<close>; the
  double-width value is an \<open>int\<close>.
\<close>

definition div_est_udbl :: "'a::len word \<Rightarrow> 'a word \<Rightarrow> 'a word \<Rightarrow> 'a word" where
  "div_est_udbl xi xi1 yt =
     (let r = (push_bit LENGTH('a) (uint xi) OR uint xi1) div uint yt;
          r = (if r > 2 ^ LENGTH('a) - 1 then 2 ^ LENGTH('a) - 1 else r)
      in word_of_int r)"

text \<open>
  The estimate without \<open>t_udbl\<close> (\<open>__udiv_qrnnd_c\<close>): the loop
  \<open>while( r >= d && r < m ) q--, r += d;\<close>, and the two half-limb divisions; \<open>biH\<close> is
  \<open>LENGTH('a) div 2\<close>. A division by zero is a trap.
\<close>

partial_function (option) qr_adjust ::
  "'a::len word \<Rightarrow> 'a word \<Rightarrow> 'a word \<Rightarrow> 'a word \<Rightarrow> ('a word \<times> 'a word) option" where
  "qr_adjust q r d m =
     (if r \<ge> d \<and> r < m then qr_adjust (q - 1) (r + d) d m else Some (q, r))"

declare qr_adjust.simps [code]

definition qr_half ::
  "'a::len word \<Rightarrow> 'a word \<Rightarrow> 'a word \<Rightarrow> 'a word \<Rightarrow> 'a word \<Rightarrow> (error + ('a word \<times> 'a word)) option" where
  "qr_half hi lo d d0 d1 =
     (if d1 = 0 then Some (Inl FAULT)
      else
        let q = hi div d1;
            r = hi - d1 * q;
            r = push_bit (LENGTH('a) div 2) r;
            r = r OR lo;
            m = q * d0
        in (case (if r < m then qr_adjust (q - 1) (r + d) d m else Some (q, r)) of
              None \<Rightarrow> None
            | Some (q, r) \<Rightarrow> Some (Inr (q, r - m))))"

definition div_est_qrnnd :: "'a::len word \<Rightarrow> 'a word \<Rightarrow> 'a word \<Rightarrow> (error + 'a word) option" where
  "div_est_qrnnd xi xi1 d =
     (let biH = LENGTH('a) div 2;
          d0 = drop_bit biH (push_bit biH d);
          d1 = drop_bit biH d
      in chko (qr_half xi (drop_bit biH xi1) d d0 d1) (\<lambda>(q1, r1).
         chko (qr_half r1 (drop_bit biH (push_bit biH xi1)) d d0 d1) (\<lambda>(q0, r0).
         Some (Inr (push_bit biH q1 OR q0)))))"

definition div_estimate ::
  "config \<Rightarrow> 'a::len word mpi \<Rightarrow> 'a word mpi \<Rightarrow> nat \<Rightarrow> nat \<Rightarrow> (error + 'a word) option" where
  "div_estimate cfg X Y i t =
     chko (Some (ld (mpi_p X) i)) (\<lambda>xi.
     chko (Some (ld (mpi_p Y) t)) (\<lambda>yt.
     if xi \<ge> yt then Some (Inr (NOT 0))
     else
       chko (Some (ld (mpi_p X) (i - 1))) (\<lambda>xi1.
       if HAVE_UDBL cfg then Some (Inr (div_est_udbl xi xi1 yt))
       else div_est_qrnnd xi xi1 yt)))"

text \<open>
  The body of the loop \<open>do { Z.p[i - t - 1]--; ... } while( mpi_cmp_mpi( &T1, &T2 ) > 0 )\<close>
  and the loop; the state is \<open>Z\<close>, \<open>T1\<close>, \<open>T2\<close>.
\<close>

definition div_refine_body ::
  "config \<Rightarrow> 'a::len word mpi \<Rightarrow> 'a word mpi \<Rightarrow> 'a word mpi \<Rightarrow> 'a word mpi \<Rightarrow> 'a word mpi \<Rightarrow> nat \<Rightarrow> nat
   \<Rightarrow> error + ('a word mpi \<times> 'a word mpi \<times> 'a word mpi)" where
  "div_refine_body cfg X Y Z T1 T2 i t =
     chk (ld (mpi_p Z) (i - t - 1)) (\<lambda>z.
     chk (st (mpi_p Z) (i - t - 1) (z - 1)) (\<lambda>zs.
     chk (mpi_lset cfg T1 0) (\<lambda>T1.
     chk (if t < 1 then Inr 0 else ld (mpi_p Y) (t - 1)) (\<lambda>y1.
     chk (st (mpi_p T1) 0 y1) (\<lambda>t1s.
     chk (ld (mpi_p Y) t) (\<lambda>yt.
     chk (st t1s 1 yt) (\<lambda>t1s.
     chk (mpi_mul_int cfg True (T1\<lparr>mpi_p := t1s\<rparr>) (T1\<lparr>mpi_p := t1s\<rparr>) (z - 1)) (\<lambda>T1.
     chk (mpi_lset cfg T2 0) (\<lambda>T2.
     chk (if i < 2 then Inr 0 else ld (mpi_p X) (i - 2)) (\<lambda>x2.
     chk (st (mpi_p T2) 0 x2) (\<lambda>t2s.
     chk (if i < 1 then Inr 0 else ld (mpi_p X) (i - 1)) (\<lambda>x1.
     chk (st t2s 1 x1) (\<lambda>t2s.
     chk (ld (mpi_p X) i) (\<lambda>xi.
     chk (st t2s 2 xi) (\<lambda>t2s.
     Inr (Z\<lparr>mpi_p := zs\<rparr>, T1, T2\<lparr>mpi_p := t2s\<rparr>))))))))))))))))"

partial_function (option) div_refine ::
  "config \<Rightarrow> 'a::len word mpi \<Rightarrow> 'a word mpi \<Rightarrow> 'a word mpi \<Rightarrow> 'a word mpi \<Rightarrow> 'a word mpi \<Rightarrow> nat \<Rightarrow> nat
   \<Rightarrow> (error + ('a word mpi \<times> 'a word mpi \<times> 'a word mpi)) option" where
  "div_refine cfg X Y Z T1 T2 i t =
     (case div_refine_body cfg X Y Z T1 T2 i t of
        Inl e \<Rightarrow> Some (Inl e)
      | Inr (Z', T1', T2') \<Rightarrow>
          if mpi_cmp_mpi T1' T2' > 0 then div_refine cfg X Y Z' T1' T2' i t
          else Some (Inr (Z', T1', T2')))"

declare div_refine.simps [code]

text \<open>
  What follows the \<open>do\<close> loop in one round of the \<open>for\<close> loop: subtract \<open>q * Y\<close> shifted
  by \<open>i - t - 1\<close> limbs, and add \<open>Y\<close> back once if \<open>X\<close> became negative.
\<close>

definition div_subtract ::
  "config \<Rightarrow> 'a::len word mpi \<Rightarrow> 'a word mpi \<Rightarrow> 'a word mpi \<Rightarrow> 'a word mpi \<Rightarrow> nat \<Rightarrow> nat
   \<Rightarrow> error + ('a word mpi \<times> 'a word mpi \<times> 'a word mpi)" where
  "div_subtract cfg X Y Z T1 i t =
     chk (ld (mpi_p Z) (i - t - 1)) (\<lambda>z.
     chk (mpi_mul_int cfg False T1 Y z) (\<lambda>T1.
     chk (mpi_shift_l cfg T1 (LENGTH('a) * (i - t - 1))) (\<lambda>T1.
     chk (mpi_sub_mpi cfg True False X X T1) (\<lambda>X.
     if mpi_cmp_int X 0 < 0 then
       chk (mpi_copy cfg False T1 Y) (\<lambda>T1.
       chk (mpi_shift_l cfg T1 (LENGTH('a) * (i - t - 1))) (\<lambda>T1.
       chk (mpi_add_mpi cfg True False X X T1) (\<lambda>X.
       chk (st (mpi_p Z) (i - t - 1) (z - 1)) (\<lambda>zs.
       Inr (X, Z\<lparr>mpi_p := zs\<rparr>, T1)))))
     else Inr (X, Z, T1)))))"

text \<open>One round of the loop \<open>for( i = n; i > t ; i-- )\<close>, and the loop.\<close>

definition div_step ::
  "config \<Rightarrow> 'a::len word mpi \<Rightarrow> nat \<Rightarrow> nat
   \<Rightarrow> 'a word mpi \<times> 'a word mpi \<times> 'a word mpi \<times> 'a word mpi
   \<Rightarrow> (error + ('a word mpi \<times> 'a word mpi \<times> 'a word mpi \<times> 'a word mpi)) option" where
  "div_step cfg Y t i S =
     (case S of (X, Z, T1, T2) \<Rightarrow>
        chko (div_estimate cfg X Y i t) (\<lambda>q.
        chko (Some (st (mpi_p Z) (i - t - 1) (q + 1))) (\<lambda>zs.
        chko (div_refine cfg X Y (Z\<lparr>mpi_p := zs\<rparr>) T1 T2 i t) (\<lambda>(Z, T1, T2).
        chko (Some (div_subtract cfg X Y Z T1 i t)) (\<lambda>(X, Z, T1).
        Some (Inr (X, Z, T1, T2)))))))"

fun div_loop ::
  "config \<Rightarrow> 'a::len word mpi \<Rightarrow> nat \<Rightarrow> nat
   \<Rightarrow> 'a word mpi \<times> 'a word mpi \<times> 'a word mpi \<times> 'a word mpi
   \<Rightarrow> (error + ('a word mpi \<times> 'a word mpi \<times> 'a word mpi \<times> 'a word mpi)) option" where
  "div_loop cfg Y t 0 S = Some (Inr S)"
| "div_loop cfg Y t (Suc i) S =
     (if Suc i > t then chko (div_step cfg Y t (Suc i) S) (div_loop cfg Y t i)
      else Some (Inr S))"

text \<open>
  \<open>mpi_div_mpi\<close>. \<open>Q\<close> and \<open>R\<close> may be \<open>NULL\<close> (\<open>None\<close>); they are not \<open>A\<close> or \<open>B\<close>, except
  that \<open>R\<close> may be \<open>A\<close>: \<open>ra\<close> is \<open>R == A\<close>. The differences \<open>X.n - 1\<close>, \<open>Y.n - 1\<close> and \<open>n - t\<close> are computed in
  \<open>size_t\<close>; where one would wrap around, the model stops with \<open>FAULT\<close>.
\<close>

definition div_main ::
  "config \<Rightarrow> 'a::len word mpi \<Rightarrow> 'a word mpi
   \<Rightarrow> (error + ('a word mpi \<times> 'a word mpi \<times> nat)) option" where
  "div_main cfg A B =
     chko (Some (mpi_copy cfg False mpi_init A)) (\<lambda>X.
     chko (Some (mpi_copy cfg False mpi_init B)) (\<lambda>Y.
     let X = X\<lparr>mpi_s := 1\<rparr>; Y = Y\<lparr>mpi_s := 1\<rparr> in
     chko (Some (mpi_grow cfg mpi_init (mpi_n A + 2))) (\<lambda>Z.
     chko (Some (mpi_lset cfg Z 0)) (\<lambda>Z.
     chko (Some (mpi_grow cfg mpi_init 2)) (\<lambda>T1.
     chko (Some (mpi_grow cfg mpi_init 3)) (\<lambda>T2.
     chko (Some (mpi_msb Y)) (\<lambda>m.
     let k = m mod LENGTH('a) in
     chko (Some (if k < LENGTH('a) - 1
                 then chk (mpi_shift_l cfg X (LENGTH('a) - 1 - k)) (\<lambda>X.
                      chk (mpi_shift_l cfg Y (LENGTH('a) - 1 - k)) (\<lambda>Y.
                      Inr (X, Y, LENGTH('a) - 1 - k)))
                 else Inr (X, Y, 0))) (\<lambda>(X, Y, k).
     if mpi_n X = 0 \<or> mpi_n Y = 0 \<or> mpi_n X < mpi_n Y then Some (Inl FAULT)
     else
       let n = mpi_n X - 1; t = mpi_n Y - 1 in
       chko (Some (mpi_shift_l cfg Y (LENGTH('a) * (n - t)))) (\<lambda>Y.
       chko (div_pre_loop cfg X Y Z (n - t)) (\<lambda>(X, Z).
       chko (Some (mpi_shift_r cfg Y (LENGTH('a) * (n - t)))) (\<lambda>Y.
       chko (div_loop cfg Y t n (X, Z, T1, T2)) (\<lambda>(X, Z, T1, T2).
       Some (Inr (Z, X, k))))))))))))))"

definition mpi_div_mpi ::
  "config \<Rightarrow> bool \<Rightarrow> 'a::len word mpi option \<Rightarrow> 'a word mpi option \<Rightarrow> 'a word mpi \<Rightarrow> 'a word mpi
   \<Rightarrow> (error + ('a word mpi option \<times> 'a word mpi option)) option" where
  "mpi_div_mpi cfg ra Q R A B =
     (if mpi_cmp_int B 0 = 0 then Some (Inl DIVISION_BY_ZERO)
      else if mpi_cmp_abs A B < 0 then
        Some (chk (case Q of None \<Rightarrow> Inr None
                   | Some Q' \<Rightarrow> chk (mpi_lset cfg Q' 0) (\<lambda>Q'. Inr (Some Q'))) (\<lambda>Q.
              chk (case R of None \<Rightarrow> Inr None
                   | Some R' \<Rightarrow> chk (mpi_copy cfg ra R' A) (\<lambda>R'. Inr (Some R'))) (\<lambda>R.
              Inr (Q, R))))
      else
        chko (div_main cfg A B) (\<lambda>(Z, X, k).
        Some (
          chk (case Q of None \<Rightarrow> Inr None
               | Some Q' \<Rightarrow> chk (mpi_copy cfg False Q' Z) (\<lambda>Q'.
                   Inr (Some (Q'\<lparr>mpi_s := mpi_s A * mpi_s B\<rparr>)))) (\<lambda>Q.
          chk (case R of None \<Rightarrow> Inr None
               | Some R' \<Rightarrow>
                   chk (mpi_shift_r cfg X k) (\<lambda>X.
                   chk (mpi_copy cfg False R' (X\<lparr>mpi_s := mpi_s A\<rparr>)) (\<lambda>R'.
                   Inr (Some (if mpi_cmp_int R' 0 = 0 then R'\<lparr>mpi_s := 1\<rparr> else R'))))) (\<lambda>R.
          Inr (Q, R))))))"

text \<open>
  \<open>mpi_mod_mpi\<close>: the two loops that bring \<open>R\<close> into the range of \<open>B\<close>; \<open>R\<close> is not \<open>B\<close>, and
  \<open>ra\<close> is \<open>R == A\<close>.
\<close>

partial_function (option) mod_add_loop ::
  "config \<Rightarrow> 'a::len word mpi \<Rightarrow> 'a word mpi \<Rightarrow> (error + 'a word mpi) option" where
  "mod_add_loop cfg R B =
     (if mpi_cmp_int R 0 < 0 then
        (case mpi_add_mpi cfg True False R R B of Inl e \<Rightarrow> Some (Inl e) | Inr R' \<Rightarrow> mod_add_loop cfg R' B)
      else Some (Inr R))"

declare mod_add_loop.simps [code]

partial_function (option) mod_sub_loop ::
  "config \<Rightarrow> 'a::len word mpi \<Rightarrow> 'a word mpi \<Rightarrow> (error + 'a word mpi) option" where
  "mod_sub_loop cfg R B =
     (if mpi_cmp_mpi R B \<ge> 0 then
        (case mpi_sub_mpi cfg True False R R B of Inl e \<Rightarrow> Some (Inl e) | Inr R' \<Rightarrow> mod_sub_loop cfg R' B)
      else Some (Inr R))"

declare mod_sub_loop.simps [code]

definition mpi_mod_mpi ::
  "config \<Rightarrow> bool \<Rightarrow> 'a::len word mpi \<Rightarrow> 'a word mpi \<Rightarrow> 'a word mpi \<Rightarrow> (error + 'a word mpi) option" where
  "mpi_mod_mpi cfg ra R A B =
     (if mpi_cmp_int B 0 < 0 then Some (Inl NEGATIVE_VALUE)
      else
        chko (mpi_div_mpi cfg ra None (Some R) A B) (\<lambda>(Q, R).
        case R of None \<Rightarrow> Some (Inl FAULT)
        | Some R \<Rightarrow>
            chko (mod_add_loop cfg R B) (\<lambda>R.
            mod_sub_loop cfg R B)))"

text \<open>\<open>mpi_mod_int\<close>: the loop \<open>for( i = A->n, y = 0; i > 0; i-- )\<close>; \<open>b\<close> is a \<open>t_sint\<close>.\<close>

fun mod_int_loop :: "'a::len word list \<Rightarrow> nat \<Rightarrow> 'a word \<Rightarrow> 'a word \<Rightarrow> 'a word" where
  "mod_int_loop xs 0 b y = y"
| "mod_int_loop xs (Suc i) b y =
     (let biH = LENGTH('a) div 2;
          x = xs ! i;
          y = push_bit biH y OR drop_bit biH x;
          z = y div b;
          y = y - z * b;
          x = push_bit biH x;
          y = push_bit biH y OR drop_bit biH x;
          z = y div b;
          y = y - z * b
      in mod_int_loop xs i b y)"

definition mpi_mod_int :: "'a::len word mpi \<Rightarrow> 'a word \<Rightarrow> error + 'a word" where
  "mpi_mod_int A b =
     (if b = 0 then Inl DIVISION_BY_ZERO
      else if b <s 0 then Inl NEGATIVE_VALUE
      else if b = 1 then Inr 0
      else if b = 2 then chk (ld (mpi_p A) 0) (\<lambda>x. Inr (x AND 1))
      else
        let y = mod_int_loop (mpi_p A) (mpi_n A) b 0 in
        Inr (if mpi_s A < 0 \<and> y \<noteq> 0 then b - y else y))"

section \<open>Montgomery multiplication\<close>

text \<open>\<open>mpi_montg_init\<close>: the loop \<open>for( i = biL; i >= 8; i /= 2 )\<close>.\<close>

function montg_loop :: "'a::len word \<Rightarrow> nat \<Rightarrow> 'a word \<Rightarrow> 'a word" where
  "montg_loop m0 i x = (if i \<ge> 8 then montg_loop m0 (i div 2) (x * (2 - m0 * x)) else x)"
  by pat_completeness auto
termination
  by (relation "measure (\<lambda>(m0, i, x). i)") auto

definition mpi_montg_init :: "'a::len word mpi \<Rightarrow> error + 'a word" where
  "mpi_montg_init N =
     chk (ld (mpi_p N) 0) (\<lambda>m0.
     let x = m0;
         x = x + push_bit 1 ((m0 + 2) AND 4);
         x = montg_loop m0 LENGTH('a) x
     in Inr (NOT x + 1))"

text \<open>
  \<open>mpi_montmul\<close>: the loop \<open>for( i = 0; i < n; i++ )\<close>. The pointer \<open>d\<close> is \<open>T->p + i\<close>;
  \<open>ts\<close> is the whole array of \<open>T\<close>.
\<close>

function mont_loop ::
  "nat \<Rightarrow> nat \<Rightarrow> nat \<Rightarrow> 'a::len word list \<Rightarrow> 'a word list \<Rightarrow> 'a word list \<Rightarrow> 'a word \<Rightarrow> 'a word list
   \<Rightarrow> error + 'a word list" where
  "mont_loop i n m as bs ns mm ts =
     (if i < n then
        chk (ld as i) (\<lambda>u0.
        chk (ld ts i) (\<lambda>d0.
        chk (ld bs 0) (\<lambda>b0.
        let u1 = (d0 + u0 * b0) * mm in
        chk (mpi_mul_hlp m bs (drop i ts) u0) (\<lambda>d.
        chk (mpi_mul_hlp n ns d u1) (\<lambda>d.
        chk (st d 0 u0) (\<lambda>d.
        chk (st d (n + 2) 0) (\<lambda>d.
        mont_loop (Suc i) n m as bs ns mm (take i ts @ d))))))))
      else Inr ts)"
  by pat_completeness auto
termination
  by (relation "measure (\<lambda>(i, n, m, as, bs, ns, mm, ts). n - i)") auto

text \<open>
  \<open>T\<close> is scratch space: it is cleared on entry, so only its length matters, and only the
  new \<open>A\<close> is returned. \<open>A\<close> and \<open>B\<close> may be the same MPI (\<open>A\<close> is written after the last
  read of \<open>B\<close>).
\<close>

definition mpi_montmul ::
  "'a::len word mpi \<Rightarrow> 'a word mpi \<Rightarrow> 'a word mpi \<Rightarrow> 'a word \<Rightarrow> 'a word mpi \<Rightarrow> error + 'a word mpi" where
  "mpi_montmul A B N mm T =
     (let n = mpi_n N; m = (if mpi_n B < n then mpi_n B else n) in
      chk (mont_loop 0 n m (mpi_p A) (mpi_p B) (mpi_p N) mm (replicate (mpi_n T) 0)) (\<lambda>ts.
      if length ts < n + (n + 1) \<or> mpi_n A < n + 1 then Inl FAULT
      else
        let A = A\<lparr>mpi_p := take (n + 1) (drop n ts) @ drop (n + 1) (mpi_p A)\<rparr> in
        if mpi_cmp_abs A N \<ge> 0
        then chk (mpi_sub_hlp n (mpi_p N) (mpi_p A)) (\<lambda>xs. Inr (A\<lparr>mpi_p := xs\<rparr>))
        else chk (mpi_sub_hlp n (mpi_p A) ts) (\<lambda>ts. Inr A)))"

definition mpi_montred ::
  "'a::len word mpi \<Rightarrow> 'a word mpi \<Rightarrow> 'a word \<Rightarrow> 'a word mpi \<Rightarrow> error + 'a word mpi" where
  "mpi_montred A N mm T = mpi_montmul A \<lparr>mpi_s = 1, mpi_p = [1]\<rparr> N mm T"

section \<open>Sliding-window exponentiation\<close>

text \<open>The loops \<open>for( i = 0; i < k; i++ ) mpi_montmul( X, X, N, mm, &T )\<close>.\<close>

fun mont_squarings ::
  "nat \<Rightarrow> 'a::len word mpi \<Rightarrow> 'a word mpi \<Rightarrow> 'a word \<Rightarrow> 'a word mpi \<Rightarrow> error + 'a word mpi" where
  "mont_squarings 0 X N mm T = Inr X"
| "mont_squarings (Suc k) X N mm T =
     chk (mpi_montmul X X N mm T) (\<lambda>X. mont_squarings k X N mm T)"

text \<open>
  The table \<open>W\<close>: the loop \<open>for( i = j + 1; i < (one << wsize); i++ )\<close>, written with the
  number \<open>k\<close> of entries still to fill.
\<close>

fun exp_table ::
  "config \<Rightarrow> nat \<Rightarrow> nat \<Rightarrow> 'a::len word mpi list \<Rightarrow> 'a word mpi \<Rightarrow> 'a word \<Rightarrow> 'a word mpi
   \<Rightarrow> error + 'a word mpi list" where
  "exp_table cfg 0 i W N mm T = Inr W"
| "exp_table cfg (Suc k) i W N mm T =
     chk (ld W i) (\<lambda>Wi.
     chk (mpi_grow cfg Wi (mpi_n N + 1)) (\<lambda>Wi.
     chk (ld W (i - 1)) (\<lambda>Wp.
     chk (mpi_copy cfg False Wi Wp) (\<lambda>Wi.
     chk (ld W 1) (\<lambda>W1.
     chk (mpi_montmul Wi W1 N mm T) (\<lambda>Wi.
     chk (st W i Wi) (\<lambda>W.
     exp_table cfg k (Suc i) W N mm T)))))))"

text \<open>
  The loop \<open>while( 1 )\<close> over the bits of \<open>E\<close>. \<open>state\<close> is 0, 1 or 2; the result is
  \<open>nbits\<close>, \<open>wbits\<close> and \<open>X\<close> at the \<open>break\<close>.
\<close>

lemma limb_bits_step: "0 < n \<Longrightarrow> 0 < L \<Longrightarrow> (n - Suc 0) * L + (L - Suc 0) < n * (L :: nat)"
  by (cases n) auto

function exp_loop ::
  "'a::len word list \<Rightarrow> 'a word mpi \<Rightarrow> 'a word \<Rightarrow> 'a word mpi \<Rightarrow> 'a word mpi list \<Rightarrow> nat
   \<Rightarrow> nat \<Rightarrow> nat \<Rightarrow> nat \<Rightarrow> nat \<Rightarrow> nat \<Rightarrow> 'a word mpi
   \<Rightarrow> error + (nat \<times> nat \<times> 'a word mpi)" where
  "exp_loop es N mm T W wsize nblimbs bufsize nbits wbits state X =
     (if bufsize = 0 \<and> nblimbs = 0 then Inr (nbits, wbits, X)
      else
        let nblimbs' = (if bufsize = 0 then nblimbs - 1 else nblimbs);
            bufsize' = (if bufsize = 0 then LENGTH('a) else bufsize) - 1
        in
        chk (ld es nblimbs') (\<lambda>e.
        let ei = drop_bit bufsize' e AND 1 in
        if ei = 0 \<and> state = 0 then
          exp_loop es N mm T W wsize nblimbs' bufsize' nbits wbits state X
        else if ei = 0 \<and> state = 1 then
          chk (mpi_montmul X X N mm T) (\<lambda>X.
          exp_loop es N mm T W wsize nblimbs' bufsize' nbits wbits state X)
        else
          let nbits' = nbits + 1;
              wbits' = wbits OR push_bit (wsize - nbits') (unat ei)
          in
          if nbits' = wsize then
            chk (mont_squarings wsize X N mm T) (\<lambda>X.
            chk (ld W wbits') (\<lambda>Ww.
            chk (mpi_montmul X Ww N mm T) (\<lambda>X.
            exp_loop es N mm T W wsize nblimbs' bufsize' 0 0 1 X)))
          else exp_loop es N mm T W wsize nblimbs' bufsize' nbits' wbits' 2 X))"
  by pat_completeness auto
termination
  by (relation "measure (\<lambda>(es :: 'a word list, N, mm, T, W, wsize, nblimbs, bufsize, nbits, wbits, state, X).
        nblimbs * LENGTH('a) + bufsize)")
     (auto simp: Let_def limb_bits_step split: if_splits)

text \<open>The loop \<open>for( i = 0; i < nbits; i++ )\<close> over the remaining bits.\<close>

fun exp_rest ::
  "nat \<Rightarrow> nat \<Rightarrow> nat \<Rightarrow> 'a::len word mpi \<Rightarrow> 'a word mpi \<Rightarrow> 'a word mpi \<Rightarrow> 'a word \<Rightarrow> 'a word mpi
   \<Rightarrow> error + 'a word mpi" where
  "exp_rest 0 wsize wbits X W1 N mm T = Inr X"
| "exp_rest (Suc k) wsize wbits X W1 N mm T =
     chk (mpi_montmul X X N mm T) (\<lambda>X.
     let wbits = push_bit 1 wbits in
     chk (if wbits AND push_bit wsize 1 \<noteq> 0 then mpi_montmul X W1 N mm T else Inr X) (\<lambda>X.
     exp_rest k wsize wbits X W1 N mm T))"

text \<open>
  \<open>mpi_exp_mod\<close>. \<open>_RR\<close> may be \<open>NULL\<close> (\<open>None\<close>); the result is \<open>X\<close> and the new \<open>_RR\<close>.
  \<open>W\<close> is cleared by \<open>__stosb\<close>, so its entries start with \<open>s = 0\<close>. \<open>X\<close> is none of
  \<open>A\<close>, \<open>E\<close>, \<open>N\<close>.
\<close>

definition exp_RR ::
  "config \<Rightarrow> 'a::len word mpi \<Rightarrow> 'a word mpi option
   \<Rightarrow> (error + ('a word mpi \<times> 'a word mpi option)) option" where
  "exp_RR cfg N RR0 =
     (if RR0 = None \<or> mpi_p (the RR0) = [] then
        chko (Some (mpi_lset cfg mpi_init 1)) (\<lambda>RR.
        chko (Some (mpi_shift_l cfg RR (mpi_n N * 2 * LENGTH('a)))) (\<lambda>RR.
        chko (mpi_mod_mpi cfg True RR RR N) (\<lambda>RR.
        Some (Inr (RR, if RR0 \<noteq> None then Some RR else None)))))
      else Some (Inr (the RR0, RR0)))"

definition exp_window ::
  "config \<Rightarrow> nat \<Rightarrow> 'a::len word mpi list \<Rightarrow> 'a word mpi \<Rightarrow> 'a word \<Rightarrow> 'a word mpi
   \<Rightarrow> error + 'a word mpi list" where
  "exp_window cfg wsize W N mm T =
     (if wsize > 1 then
        let j = push_bit (wsize - 1) (1 :: nat) in
        chk (ld W j) (\<lambda>Wj.
        chk (mpi_grow cfg Wj (mpi_n N + 1)) (\<lambda>Wj.
        chk (ld W 1) (\<lambda>W1.
        chk (mpi_copy cfg False Wj W1) (\<lambda>Wj.
        chk (mont_squarings (wsize - 1) Wj N mm T) (\<lambda>Wj.
        chk (st W j Wj) (\<lambda>W.
        exp_table cfg (push_bit wsize (1 :: nat) - (j + 1)) (j + 1) W N mm T))))))
      else Inr W)"

definition mpi_exp_mod ::
  "config \<Rightarrow> 'a::len word mpi \<Rightarrow> 'a word mpi \<Rightarrow> 'a word mpi \<Rightarrow> 'a word mpi \<Rightarrow> 'a word mpi option
   \<Rightarrow> (error + ('a word mpi \<times> 'a word mpi option)) option" where
  "mpi_exp_mod cfg X A0 E N RR0 =
     chko (Some (ld (mpi_p N) 0)) (\<lambda>n0.
     if mpi_cmp_int N 0 < 0 \<or> n0 AND 1 = 0 then Some (Inl BAD_INPUT_DATA)
     else if mpi_cmp_int E 0 < 0 then Some (Inl BAD_INPUT_DATA)
     else
       chko (Some (mpi_montg_init N)) (\<lambda>mm.
       let W = replicate (push_bit (WINDOW_SIZE cfg) 2) \<lparr>mpi_s = 0, mpi_p = []\<rparr> in
       chko (Some (mpi_msb E)) (\<lambda>i.
       let wsize = (if i > 671 then 6 else if i > 239 then 5
                    else if i > 79 then 4 else if i > 23 then 3 else 1 :: nat);
           wsize = (if wsize > WINDOW_SIZE cfg then WINDOW_SIZE cfg else wsize);
           j = mpi_n N + 1
       in
       chko (Some (mpi_grow cfg X j)) (\<lambda>X.
       chko (Some (chk (ld W 1) (\<lambda>W1. mpi_grow cfg W1 j))) (\<lambda>W1.
       chko (Some (mpi_grow cfg mpi_init (j * 2))) (\<lambda>T.
       let neg = (mpi_s A0 = - 1) in
       chko (Some (if neg then chk (mpi_copy cfg False mpi_init A0) (\<lambda>Apos. Inr (Apos\<lparr>mpi_s := 1\<rparr>))
                   else Inr A0)) (\<lambda>A.
       chko (exp_RR cfg N RR0) (\<lambda>(RR, RR').
       chko (if mpi_cmp_mpi A N \<ge> 0 then mpi_mod_mpi cfg False W1 A N
             else Some (mpi_copy cfg False W1 A)) (\<lambda>W1.
       chko (Some (mpi_montmul W1 RR N mm T)) (\<lambda>W1.
       chko (Some (st W 1 W1)) (\<lambda>W.
       chko (Some (mpi_copy cfg False X RR)) (\<lambda>X.
       chko (Some (mpi_montred X N mm T)) (\<lambda>X.
       chko (Some (exp_window cfg wsize W N mm T)) (\<lambda>W.
       chko (Some (exp_loop (mpi_p E) N mm T W wsize (mpi_n E) 0 0 0 0 X)) (\<lambda>(nbits, wbits, X).
       chko (Some (exp_rest nbits wsize wbits X W1 N mm T)) (\<lambda>X.
       chko (Some (mpi_montred X N mm T)) (\<lambda>X.
       chko (Some (if neg then mpi_add_mpi cfg False True (X\<lparr>mpi_s := - 1\<rparr>) N (X\<lparr>mpi_s := - 1\<rparr>)
                   else Inr X)) (\<lambda>X.
       Some (Inr (X, RR'))))))))))))))))))))"

section \<open>Greatest common divisor and modular inverse\<close>

text \<open>\<open>mpi_gcd\<close>: the loop \<open>while( mpi_cmp_int( &TA, 0 ) != 0 )\<close>.\<close>

definition gcd_body ::
  "config \<Rightarrow> 'a::len word mpi \<Rightarrow> 'a word mpi \<Rightarrow> error + ('a word mpi \<times> 'a word mpi)" where
  "gcd_body cfg TA TB =
     chk (mpi_shift_r cfg TA (mpi_lsb TA)) (\<lambda>TA.
     chk (mpi_shift_r cfg TB (mpi_lsb TB)) (\<lambda>TB.
     if mpi_cmp_mpi TA TB \<ge> 0 then
       chk (mpi_sub_abs cfg True False TA TA TB) (\<lambda>TA.
       chk (mpi_shift_r cfg TA 1) (\<lambda>TA.
       Inr (TA, TB)))
     else
       chk (mpi_sub_abs cfg True False TB TB TA) (\<lambda>TB.
       chk (mpi_shift_r cfg TB 1) (\<lambda>TB.
       Inr (TA, TB)))))"

partial_function (option) gcd_loop ::
  "config \<Rightarrow> 'a::len word mpi \<Rightarrow> 'a word mpi \<Rightarrow> (error + ('a word mpi \<times> 'a word mpi)) option" where
  "gcd_loop cfg TA TB =
     (if mpi_cmp_int TA 0 \<noteq> 0 then
        (case gcd_body cfg TA TB of
           Inl e \<Rightarrow> Some (Inl e)
         | Inr (TA', TB') \<Rightarrow> gcd_loop cfg TA' TB')
      else Some (Inr (TA, TB)))"

declare gcd_loop.simps [code]

definition mpi_gcd ::
  "config \<Rightarrow> 'a::len word mpi \<Rightarrow> 'a word mpi \<Rightarrow> 'a word mpi \<Rightarrow> (error + 'a word mpi) option" where
  "mpi_gcd cfg G A B =
     chko (Some (mpi_copy cfg False mpi_init A)) (\<lambda>TA.
     chko (Some (mpi_copy cfg False mpi_init B)) (\<lambda>TB.
     let lz = mpi_lsb TA; lzt = mpi_lsb TB;
         lz = (if lzt < lz then lzt else lz)
     in
     chko (Some (mpi_shift_r cfg TA lz)) (\<lambda>TA.
     chko (Some (mpi_shift_r cfg TB lz)) (\<lambda>TB.
     chko (gcd_loop cfg (TA\<lparr>mpi_s := 1\<rparr>) (TB\<lparr>mpi_s := 1\<rparr>)) (\<lambda>(TA, TB).
     chko (Some (mpi_shift_l cfg TB lz)) (\<lambda>TB.
     Some (mpi_copy cfg False G TB)))))))"

text \<open>
  \<open>mpi_inv_mod\<close>: the loop \<open>while( ( TU.p[0] & 1 ) == 0 )\<close> on \<open>TU\<close>, \<open>U1\<close>, \<open>U2\<close>; the loop on
  \<open>TV\<close>, \<open>V1\<close>, \<open>V2\<close> is the same code.
\<close>

definition inv_halve_body ::
  "config \<Rightarrow> 'a::len word mpi \<Rightarrow> 'a word mpi \<Rightarrow> 'a word mpi \<Rightarrow> 'a word mpi \<Rightarrow> 'a word mpi
   \<Rightarrow> error + ('a word mpi \<times> 'a word mpi \<times> 'a word mpi)" where
  "inv_halve_body cfg TA TB TU U1 U2 =
     chk (mpi_shift_r cfg TU 1) (\<lambda>TU.
     chk (ld (mpi_p U1) 0) (\<lambda>u1.
     chk (if u1 AND 1 \<noteq> 0 then Inr 1 else ld (mpi_p U2) 0) (\<lambda>u2.
     chk (if u1 AND 1 \<noteq> 0 \<or> u2 AND 1 \<noteq> 0 then
            chk (mpi_add_mpi cfg True False U1 U1 TB) (\<lambda>U1.
            chk (mpi_sub_mpi cfg True False U2 U2 TA) (\<lambda>U2.
            Inr (U1, U2)))
          else Inr (U1, U2)) (\<lambda>(U1, U2).
     chk (mpi_shift_r cfg U1 1) (\<lambda>U1.
     chk (mpi_shift_r cfg U2 1) (\<lambda>U2.
     Inr (TU, U1, U2)))))))"

partial_function (option) inv_halve ::
  "config \<Rightarrow> 'a::len word mpi \<Rightarrow> 'a word mpi \<Rightarrow> 'a word mpi \<Rightarrow> 'a word mpi \<Rightarrow> 'a word mpi
   \<Rightarrow> (error + ('a word mpi \<times> 'a word mpi \<times> 'a word mpi)) option" where
  "inv_halve cfg TA TB TU U1 U2 =
     (case ld (mpi_p TU) 0 of
        Inl e \<Rightarrow> Some (Inl e)
      | Inr u \<Rightarrow>
          if u AND 1 = 0 then
            (case inv_halve_body cfg TA TB TU U1 U2 of
               Inl e \<Rightarrow> Some (Inl e)
             | Inr (TU', U1', U2') \<Rightarrow> inv_halve cfg TA TB TU' U1' U2')
          else Some (Inr (TU, U1, U2)))"

declare inv_halve.simps [code]

text \<open>The body of the loop \<open>do { ... } while( mpi_cmp_int( &TU, 0 ) != 0 )\<close>, and the loop.\<close>

definition inv_body ::
  "config \<Rightarrow> 'a::len word mpi \<Rightarrow> 'a word mpi
   \<Rightarrow> ('a word mpi \<times> 'a word mpi \<times> 'a word mpi) \<times> ('a word mpi \<times> 'a word mpi \<times> 'a word mpi)
   \<Rightarrow> (error + (('a word mpi \<times> 'a word mpi \<times> 'a word mpi) \<times> ('a word mpi \<times> 'a word mpi \<times> 'a word mpi))) option" where
  "inv_body cfg TA TB S =
     (case S of ((TU, U1, U2), (TV, V1, V2)) \<Rightarrow>
        chko (inv_halve cfg TA TB TU U1 U2) (\<lambda>(TU, U1, U2).
        chko (inv_halve cfg TA TB TV V1 V2) (\<lambda>(TV, V1, V2).
        Some (
          if mpi_cmp_mpi TU TV \<ge> 0 then
            chk (mpi_sub_mpi cfg True False TU TU TV) (\<lambda>TU.
            chk (mpi_sub_mpi cfg True False U1 U1 V1) (\<lambda>U1.
            chk (mpi_sub_mpi cfg True False U2 U2 V2) (\<lambda>U2.
            Inr ((TU, U1, U2), (TV, V1, V2)))))
          else
            chk (mpi_sub_mpi cfg True False TV TV TU) (\<lambda>TV.
            chk (mpi_sub_mpi cfg True False V1 V1 U1) (\<lambda>V1.
            chk (mpi_sub_mpi cfg True False V2 V2 U2) (\<lambda>V2.
            Inr ((TU, U1, U2), (TV, V1, V2)))))))))"

partial_function (option) inv_loop ::
  "config \<Rightarrow> 'a::len word mpi \<Rightarrow> 'a word mpi
   \<Rightarrow> ('a word mpi \<times> 'a word mpi \<times> 'a word mpi) \<times> ('a word mpi \<times> 'a word mpi \<times> 'a word mpi)
   \<Rightarrow> (error + (('a word mpi \<times> 'a word mpi \<times> 'a word mpi) \<times> ('a word mpi \<times> 'a word mpi \<times> 'a word mpi))) option" where
  "inv_loop cfg TA TB S =
     (case inv_body cfg TA TB S of
        None \<Rightarrow> None
      | Some (Inl e) \<Rightarrow> Some (Inl e)
      | Some (Inr S') \<Rightarrow>
          if mpi_cmp_int (fst (fst S')) 0 \<noteq> 0 then inv_loop cfg TA TB S'
          else Some (Inr S'))"

declare inv_loop.simps [code]

text \<open>
  The two loops that bring \<open>V1\<close> into the range of \<open>N\<close> are the loops of \<open>mpi_mod_mpi\<close>.
\<close>

definition mpi_inv_mod ::
  "config \<Rightarrow> 'a::len word mpi \<Rightarrow> 'a word mpi \<Rightarrow> 'a word mpi \<Rightarrow> (error + 'a word mpi) option" where
  "mpi_inv_mod cfg X A N =
     (if mpi_cmp_int N 0 \<le> 0 then Some (Inl BAD_INPUT_DATA)
      else
        chko (mpi_gcd cfg mpi_init A N) (\<lambda>G.
        if mpi_cmp_int G 1 \<noteq> 0 then Some (Inl NOT_ACCEPTABLE)
        else
          chko (mpi_mod_mpi cfg False mpi_init A N) (\<lambda>TA.
          chko (Some (mpi_copy cfg False mpi_init TA)) (\<lambda>TU.
          chko (Some (mpi_copy cfg False mpi_init N)) (\<lambda>TB.
          chko (Some (mpi_copy cfg False mpi_init N)) (\<lambda>TV.
          chko (Some (mpi_lset cfg mpi_init 1)) (\<lambda>U1.
          chko (Some (mpi_lset cfg mpi_init 0)) (\<lambda>U2.
          chko (Some (mpi_lset cfg mpi_init 0)) (\<lambda>V1.
          chko (Some (mpi_lset cfg mpi_init 1)) (\<lambda>V2.
          chko (inv_loop cfg TA TB ((TU, U1, U2), (TV, V1, V2))) (\<lambda>((TU, U1, U2), (TV, V1, V2)).
          chko (mod_add_loop cfg V1 N) (\<lambda>V1.
          chko (mod_sub_loop cfg V1 N) (\<lambda>V1.
          Some (mpi_copy cfg False X V1))))))))))))))"

section \<open>The value of an MPI\<close>

text \<open>
  The limbs are little-endian digits in base \<open>2^biL\<close>; the value of an MPI is the sign
  times the value of its limbs.
\<close>

fun lval :: "'a::len word list \<Rightarrow> int" where
  "lval [] = 0"
| "lval (x # xs) = uint x + 2 ^ LENGTH('a) * lval xs"

definition mpi_val :: "'a::len word mpi \<Rightarrow> int" where
  "mpi_val X = mpi_s X * lval (mpi_p X)"

text \<open>The default configuration, with and without the double-width type.\<close>

definition default_config :: "bool \<Rightarrow> config" where
  "default_config udbl = \<lparr>MAX_LIMBS = 10000, WINDOW_SIZE = 6, HAVE_UDBL = udbl\<rparr>"

lemma lval_nonneg: "0 \<le> lval xs"
  by (induction xs) auto

lemma lval_append:
  "lval (xs @ ys) = lval xs + 2 ^ (LENGTH('a) * length xs) * lval (ys :: 'a::len word list)"
  by (induction xs) (auto simp: algebra_simps power_add)

lemma lval_replicate_0 [simp]: "lval (replicate k 0) = 0"
  by (induction k) auto

lemma lval_bound: "lval (xs :: 'a::len word list) < 2 ^ (LENGTH('a) * length xs)"
proof (induction xs)
  case Nil
  show ?case by simp
next
  case (Cons x xs)
  have a: "uint x < 2 ^ LENGTH('a)" by (rule uint_lt2p)
  have "lval xs + 1 \<le> 2 ^ (LENGTH('a) * length xs)" using Cons by simp
  then have b: "2 ^ LENGTH('a) * (lval xs + 1) \<le> (2 :: int) ^ LENGTH('a) * 2 ^ (LENGTH('a) * length xs)"
    by (rule mult_left_mono) simp
  have "uint x + 2 ^ LENGTH('a) * lval xs < 2 ^ LENGTH('a) * (lval xs + 1)"
    using a by (simp only: distrib_left mult_1_right add.commute add_less_cancel_left)
  also have "\<dots> \<le> 2 ^ (LENGTH('a) * length (x # xs))"
    using b by (simp add: power_add)
  finally show ?case by simp
qed

lemma chk_simps [simp]:
  "chk (Inr x) f = f x" "chk (Inl e) f = Inl e"
  by (simp_all add: chk_def)

lemma chko_simps [simp]:
  "chko (Some (Inr x)) g = g x" "chko (Some (Inl e)) g = Some (Inl e)" "chko None g = None"
  by (simp_all add: chko_def)

lemma chk_eq_Inr: "chk m f = Inr y \<longleftrightarrow> (\<exists>x. m = Inr x \<and> f x = Inr y)"
  by (cases m) auto

lemma ld_simp [simp]: "i < length xs \<Longrightarrow> ld xs i = Inr (xs ! i)"
  by (simp add: ld_def)

lemma st_simp [simp]: "i < length xs \<Longrightarrow> st xs i v = Inr (xs[i := v])"
  by (simp add: st_def)

lemma uint_nonzero: "c \<noteq> 0 \<Longrightarrow> 1 \<le> uint (c :: 'a::len word)"
proof -
  assume "c \<noteq> 0"
  then have "0 < uint c" using uint_ge_0 [of c] by (simp add: uint_0_iff order_less_le)
  then show ?thesis by simp
qed

subsection \<open>Significant limbs\<close>

lemma used_limbs_le: "used_limbs xs i \<le> i"
  by (induction i) auto

lemma used_limbs_zero_above:
  "used_limbs xs i \<le> j \<Longrightarrow> j < i \<Longrightarrow> xs ! j = 0"
proof (induction i)
  case 0
  then show ?case by simp
next
  case (Suc i)
  then show ?case by (cases "j = i") (auto split: if_splits)
qed

lemma used_limbs_top: "0 < used_limbs xs i \<Longrightarrow> xs ! (used_limbs xs i - 1) \<noteq> 0"
  by (induction i) (auto split: if_splits)

lemma lval_take_zero_above:
  "\<forall>j. u \<le> j \<and> j < length xs \<longrightarrow> xs ! j = 0 \<Longrightarrow> lval (take u xs) = lval (xs :: 'a::len word list)"
proof (induction xs arbitrary: u)
  case Nil
  then show ?case by simp
next
  case (Cons x xs)
  show ?case
  proof (cases u)
    case 0
    with Cons.prems have z: "x = 0" "\<forall>j. 0 \<le> j \<and> j < length xs \<longrightarrow> xs ! j = 0" by auto
    from Cons.IH [of 0] z(2) have "lval xs = 0" by simp
    with 0 z show ?thesis by simp
  next
    case (Suc u')
    from Cons.prems Suc have "\<forall>j. u' \<le> j \<and> j < length xs \<longrightarrow> xs ! j = 0" by auto
    from Cons.IH [OF this] Suc show ?thesis by simp
  qed
qed

lemma lval_take_used:
  "lval (take (used_limbs xs (length xs)) xs) = lval xs"
  by (rule lval_take_zero_above) (auto intro: used_limbs_zero_above)

lemma lval_ge_top:
  "i < length xs \<Longrightarrow> uint (xs ! i) * 2 ^ (LENGTH('a) * i) \<le> lval (xs :: 'a::len word list)"
proof (induction xs arbitrary: i)
  case Nil
  then show ?case by simp
next
  case (Cons x xs)
  show ?case
  proof (cases i)
    case 0
    then show ?thesis using lval_nonneg [of xs] by simp
  next
    case (Suc i')
    with Cons have IH: "uint (xs ! i') * 2 ^ (LENGTH('a) * i') \<le> lval xs" by simp
    have "uint ((x # xs) ! i) * 2 ^ (LENGTH('a) * i) = 2 ^ LENGTH('a) * (uint (xs ! i') * 2 ^ (LENGTH('a) * i'))"
      using Suc by (simp add: power_add)
    also have "\<dots> \<le> 2 ^ LENGTH('a) * lval xs"
      by (rule mult_left_mono [OF IH]) simp
    also have "\<dots> \<le> lval (x # xs)" by simp
    finally show ?thesis .
  qed
qed

lemma lval_zero_iff: "lval xs = 0 \<longleftrightarrow> (\<forall>x \<in> set xs. x = 0)"
proof (induction xs)
  case Nil
  show ?case by simp
next
  case (Cons x xs)
  have "uint x + 2 ^ LENGTH('a) * lval xs = 0 \<longleftrightarrow> uint x = 0 \<and> lval xs = 0"
    using lval_nonneg [of xs] uint_ge_0 [of x]
    by (smt (verit) mult_nonneg_nonneg zero_le_power mult_eq_0_iff power_not_zero)
  with Cons show ?case by (simp add: uint_0_iff)
qed

lemma used_limbs_zero_iff: "used_limbs xs (length xs) = 0 \<longleftrightarrow> lval xs = 0"
proof
  assume "used_limbs xs (length xs) = 0"
  then have "lval (take 0 xs) = lval xs" using lval_take_used [of xs] by simp
  then show "lval xs = 0" by simp
next
  assume "lval xs = 0"
  then have z: "\<forall>x \<in> set xs. x = 0" by (simp add: lval_zero_iff)
  show "used_limbs xs (length xs) = 0"
  proof (rule ccontr)
    assume "used_limbs xs (length xs) \<noteq> 0"
    then have "0 < used_limbs xs (length xs)" by simp
    from used_limbs_top [OF this] have "xs ! (used_limbs xs (length xs) - 1) \<noteq> 0" .
    moreover have "used_limbs xs (length xs) - 1 < length xs"
      using used_limbs_le [of xs "length xs"] \<open>0 < used_limbs xs (length xs)\<close> by simp
    ultimately show False using z by (metis nth_mem)
  qed
qed

text \<open>The value of the significant limbs lies between the powers of the base.\<close>

lemma lval_used_lower:
  assumes "0 < used_limbs xs (length xs)"
  shows "2 ^ (LENGTH('a) * (used_limbs xs (length xs) - 1)) \<le> lval (xs :: 'a::len word list)"
proof -
  let ?u = "used_limbs xs (length xs)"
  have lt: "?u - 1 < length xs" using used_limbs_le [of xs "length xs"] assms by simp
  have "xs ! (?u - 1) \<noteq> 0" by (rule used_limbs_top [OF assms])
  then have "0 < uint (xs ! (?u - 1))"
    using uint_ge_0 [of "xs ! (?u - 1)"] by (simp add: uint_0_iff order_less_le)
  then have one: "1 \<le> uint (xs ! (?u - 1))" by simp
  have "2 ^ (LENGTH('a) * (?u - 1)) = 1 * (2 :: int) ^ (LENGTH('a) * (?u - 1))" by simp
  also have "\<dots> \<le> uint (xs ! (?u - 1)) * (2 :: int) ^ (LENGTH('a) * (?u - 1))"
    by (rule mult_right_mono [OF one]) simp
  also have "\<dots> \<le> lval xs" by (rule lval_ge_top [OF lt])
  finally show ?thesis .
qed

lemma lval_used_upper:
  "lval (xs :: 'a::len word list) < 2 ^ (LENGTH('a) * used_limbs xs (length xs))"
proof -
  have "lval (take (used_limbs xs (length xs)) xs) < 2 ^ (LENGTH('a) * length (take (used_limbs xs (length xs)) xs))"
    by (rule lval_bound)
  moreover have "length (take (used_limbs xs (length xs)) xs) = used_limbs xs (length xs)"
    using used_limbs_le [of xs "length xs"] by simp
  ultimately show ?thesis by (simp add: lval_take_used)
qed

lemma top_limb_used: "top_limb xs i + 1 = max 1 (used_limbs xs (Suc i))"
  by (induction i) auto

lemma top_limb_used_length:
  "xs \<noteq> [] \<Longrightarrow> top_limb xs (length xs - 1) + 1 = max 1 (used_limbs xs (length xs))"
  using top_limb_used [of xs "length xs - 1"] by (cases xs) auto

subsection \<open>Growth, copy, small values\<close>

lemma mpi_grow_spec:
  assumes "nb \<le> MAX_LIMBS cfg"
  shows "mpi_grow cfg X nb = Inr (X\<lparr>mpi_p := mpi_p X @ replicate (nb - mpi_n X) 0\<rparr>)"
  using assms by (auto simp: mpi_grow_def mpi_n_def)

lemma mpi_grow_val:
  "mpi_grow cfg X nb = Inr X' \<Longrightarrow>
     mpi_s X' = mpi_s X \<and> lval (mpi_p X') = lval (mpi_p X) \<and> mpi_n X' = max (mpi_n X) nb
     \<and> mpi_p X' = mpi_p X @ replicate (nb - mpi_n X) 0"
  by (auto simp: mpi_grow_def mpi_n_def lval_append split: if_splits)

definition copy_len :: "'a::len word mpi \<Rightarrow> nat" where
  "copy_len Y = max 1 (used_limbs (mpi_p Y) (mpi_n Y))"

lemma copy_len_le: "mpi_p Y \<noteq> [] \<Longrightarrow> copy_len Y \<le> mpi_n Y"
  using used_limbs_le [of "mpi_p Y" "mpi_n Y"] by (cases "mpi_p Y") (auto simp: copy_len_def mpi_n_def)

lemma lval_take_copy_len: "lval (take (copy_len Y) (mpi_p Y)) = lval (mpi_p Y)"
  by (rule lval_take_zero_above)
     (auto simp: copy_len_def mpi_n_def intro: used_limbs_zero_above)

lemma mpi_copy_eq:
  "mpi_copy cfg same X Y =
     (if same then Inr X
      else if mpi_p Y = [] then Inr mpi_init
      else if copy_len Y > MAX_LIMBS cfg then Inl MALLOC_FAILED
      else Inr \<lparr>mpi_s = mpi_s Y,
                mpi_p = take (copy_len Y) (mpi_p Y) @ replicate (mpi_n X - copy_len Y) 0\<rparr>)"
proof (cases "same \<or> mpi_p Y = []")
  case True
  then show ?thesis by (auto simp: mpi_copy_def)
next
  case False
  then have i: "top_limb (mpi_p Y) (mpi_n Y - 1) + 1 = copy_len Y"
    using top_limb_used_length [of "mpi_p Y"] by (simp add: copy_len_def mpi_n_def)
  have le: "copy_len Y \<le> mpi_n Y" using False copy_len_le by auto
  show ?thesis
    using False le unfolding mpi_copy_def Let_def i
    by (cases X) (auto simp: mpi_grow_def mpi_n_def)
qed

lemma mpi_copy_spec:
  assumes "mpi_copy cfg same X Y = Inr X'" and "same \<longrightarrow> X = Y"
  shows "lval (mpi_p X') = lval (mpi_p Y)"
    and "mpi_p Y \<noteq> [] \<Longrightarrow> mpi_s X' = mpi_s Y"
    and "mpi_val X' = mpi_val Y"
    and "\<not> same \<Longrightarrow> mpi_p Y \<noteq> [] \<Longrightarrow> mpi_n X' = max (mpi_n X) (copy_len Y)"
proof -
  show "lval (mpi_p X') = lval (mpi_p Y)"
    using assms by (auto simp: mpi_copy_eq mpi_init_def lval_append lval_take_copy_len split: if_splits)
  show "mpi_p Y \<noteq> [] \<Longrightarrow> mpi_s X' = mpi_s Y"
    using assms by (auto simp: mpi_copy_eq split: if_splits)
  show "mpi_val X' = mpi_val Y"
    using assms
    by (auto simp: mpi_copy_eq mpi_init_def mpi_val_def lval_append lval_take_copy_len split: if_splits)
  show "\<not> same \<Longrightarrow> mpi_p Y \<noteq> [] \<Longrightarrow> mpi_n X' = max (mpi_n X) (copy_len Y)"
    using assms copy_len_le [of Y]
    by (auto simp: mpi_copy_eq mpi_n_def split: if_splits)
qed

lemma mpi_copy_ok:
  assumes "mpi_n Y \<le> MAX_LIMBS cfg"
  shows "\<exists>X'. mpi_copy cfg same X Y = Inr X'"
  using assms copy_len_le [of Y] by (auto simp: mpi_copy_eq)

lemma mpi_copy_init:
  assumes "mpi_p Y \<noteq> []" "mpi_n Y \<le> MAX_LIMBS cfg"
  shows "mpi_copy cfg False mpi_init Y = Inr \<lparr>mpi_s = mpi_s Y, mpi_p = take (copy_len Y) (mpi_p Y)\<rparr>"
  using assms copy_len_le [of Y] by (auto simp: mpi_copy_eq mpi_init_def mpi_n_def)

lemma mpi_lset_0:
  assumes "1 \<le> MAX_LIMBS cfg"
  shows "mpi_lset cfg X 0 = Inr \<lparr>mpi_s = 1, mpi_p = replicate (max 1 (mpi_n X)) 0\<rparr>"
proof -
  have "(replicate k (0 :: 'a word))[0 := 0] = replicate k 0" for k
    by (simp add: list_eq_iff_nth_eq nth_list_update)
  then show ?thesis
    using assms
    by (cases X) (auto simp: mpi_lset_def mpi_grow_def mpi_n_def max_def word_sless_alt not_le less_Suc_eq)
qed

subsection \<open>Comparison\<close>

lemma lval_snoc: "lval (xs @ [x]) = lval xs + 2 ^ (LENGTH('a) * length xs) * uint (x :: 'a::len word)"
  by (simp add: lval_append)

lemma cmp_limbs_spec:
  assumes "i \<le> length xs" "i \<le> length ys"
  shows "cmp_limbs xs ys i sg = sg * sgn (lval (take i xs) - lval (take i (ys :: 'a::len word list)))"
  using assms
proof (induction i)
  case 0
  then show ?case by simp
next
  case (Suc i)
  let ?P = "(2 :: int) ^ (LENGTH('a) * i)"
  have tx: "take (Suc i) xs = take i xs @ [xs ! i]" using Suc.prems by (simp add: take_Suc_conv_app_nth)
  have ty: "take (Suc i) ys = take i ys @ [ys ! i]" using Suc.prems by (simp add: take_Suc_conv_app_nth)
  have lx: "lval (take (Suc i) xs) = lval (take i xs) + ?P * uint (xs ! i)"
    using Suc.prems by (simp add: tx lval_snoc)
  have ly: "lval (take (Suc i) ys) = lval (take i ys) + ?P * uint (ys ! i)"
    using Suc.prems by (simp add: ty lval_snoc)
  have bx: "lval (take i xs) < ?P" using lval_bound [of "take i xs"] Suc.prems by simp
  have by': "lval (take i ys) < ?P" using lval_bound [of "take i ys"] Suc.prems by simp
  have nx: "0 \<le> lval (take i xs)" by (rule lval_nonneg)
  have ny: "0 \<le> lval (take i ys)" by (rule lval_nonneg)
  consider "ys ! i < xs ! i" | "xs ! i < ys ! i" | "xs ! i = ys ! i" by (metis linorder_neqE)
  then show ?case
  proof cases
    case 1
    then have "uint (ys ! i) + 1 \<le> uint (xs ! i)" by (simp add: word_less_def)
    then have "?P * (uint (ys ! i) + 1) \<le> ?P * uint (xs ! i)" by (rule mult_left_mono) simp
    then have "?P * uint (ys ! i) + ?P \<le> ?P * uint (xs ! i)" by (simp add: distrib_left)
    with bx by' nx ny have "lval (take (Suc i) ys) < lval (take (Suc i) xs)" unfolding lx ly by linarith
    with 1 show ?thesis by simp
  next
    case 2
    then have "uint (xs ! i) + 1 \<le> uint (ys ! i)" by (simp add: word_less_def)
    then have "?P * (uint (xs ! i) + 1) \<le> ?P * uint (ys ! i)" by (rule mult_left_mono) simp
    then have "?P * uint (xs ! i) + ?P \<le> ?P * uint (ys ! i)" by (simp add: distrib_left)
    with bx by' nx ny have "lval (take (Suc i) xs) < lval (take (Suc i) ys)" unfolding lx ly by linarith
    with 2 show ?thesis by (auto dest: order_less_asym)
  next
    case 3
    then have "lval (take (Suc i) xs) - lval (take (Suc i) ys) = lval (take i xs) - lval (take i ys)"
      unfolding lx ly by simp
    with 3 Suc show ?thesis by simp
  qed
qed

lemma mpi_cmp_abs_spec: "mpi_cmp_abs X Y = sgn (lval (mpi_p X) - lval (mpi_p Y))"
proof -
  let ?i = "used_limbs (mpi_p X) (mpi_n X)" and ?j = "used_limbs (mpi_p Y) (mpi_n Y)"
  have ix: "?i \<le> length (mpi_p X)" and jy: "?j \<le> length (mpi_p Y)"
    by (simp_all add: mpi_n_def used_limbs_le)
  have ux: "lval (mpi_p X) < 2 ^ (LENGTH('a) * ?i)" and uy: "lval (mpi_p Y) < 2 ^ (LENGTH('a) * ?j)"
    using lval_used_upper [of "mpi_p X"] lval_used_upper [of "mpi_p Y"] by (simp_all add: mpi_n_def)
  consider "?i = 0 \<and> ?j = 0" | "?j < ?i" | "?i < ?j" | "?i = ?j" "0 < ?i" by linarith
  then show ?thesis
  proof cases
    case 1
    then have "lval (mpi_p X) = 0" "lval (mpi_p Y) = 0"
      using used_limbs_zero_iff [of "mpi_p X"] used_limbs_zero_iff [of "mpi_p Y"] by (simp_all add: mpi_n_def)
    with 1 show ?thesis by (simp add: mpi_cmp_abs_def)
  next
    case 2
    then have "0 < used_limbs (mpi_p X) (length (mpi_p X))" by (simp add: mpi_n_def)
    from lval_used_lower [OF this] have lo: "2 ^ (LENGTH('a) * (?i - 1)) \<le> lval (mpi_p X)"
      by (simp add: mpi_n_def)
    have "(2 :: int) ^ (LENGTH('a) * ?j) \<le> 2 ^ (LENGTH('a) * (?i - 1))"
      using 2 by (intro power_increasing) auto
    with lo uy have "lval (mpi_p Y) < lval (mpi_p X)" by linarith
    with 2 show ?thesis by (simp add: mpi_cmp_abs_def)
  next
    case 3
    then have "0 < used_limbs (mpi_p Y) (length (mpi_p Y))" by (simp add: mpi_n_def)
    from lval_used_lower [OF this] have lo: "2 ^ (LENGTH('a) * (?j - 1)) \<le> lval (mpi_p Y)"
      by (simp add: mpi_n_def)
    have "(2 :: int) ^ (LENGTH('a) * ?i) \<le> 2 ^ (LENGTH('a) * (?j - 1))"
      using 3 by (intro power_increasing) auto
    with lo ux have "lval (mpi_p X) < lval (mpi_p Y)" by linarith
    with 3 show ?thesis by (simp add: mpi_cmp_abs_def)
  next
    case 4
    have "cmp_limbs (mpi_p X) (mpi_p Y) ?i 1 = 1 * sgn (lval (take ?i (mpi_p X)) - lval (take ?i (mpi_p Y)))"
      using ix jy 4 by (intro cmp_limbs_spec) simp_all
    moreover have "lval (take ?i (mpi_p X)) = lval (mpi_p X)"
      using lval_take_used [of "mpi_p X"] by (simp add: mpi_n_def)
    moreover have "lval (take ?i (mpi_p Y)) = lval (mpi_p Y)"
      using lval_take_used [of "mpi_p Y"] 4 by (simp add: mpi_n_def)
    ultimately show ?thesis using 4 by (simp add: mpi_cmp_abs_def)
  qed
qed

lemma mpi_cmp_mpi_spec:
  assumes "mpi_s X = 1 \<or> mpi_s X = - 1" "mpi_s Y = 1 \<or> mpi_s Y = - 1"
  shows "mpi_cmp_mpi X Y = sgn (mpi_val X - mpi_val Y)"
proof -
  let ?i = "used_limbs (mpi_p X) (mpi_n X)" and ?j = "used_limbs (mpi_p Y) (mpi_n Y)"
  let ?x = "lval (mpi_p X)" and ?y = "lval (mpi_p Y)"
  have ix: "?i \<le> length (mpi_p X)" and jy: "?j \<le> length (mpi_p Y)"
    by (simp_all add: mpi_n_def used_limbs_le)
  have ux: "?x < 2 ^ (LENGTH('a) * ?i)" and uy: "?y < 2 ^ (LENGTH('a) * ?j)"
    using lval_used_upper [of "mpi_p X"] lval_used_upper [of "mpi_p Y"] by (simp_all add: mpi_n_def)
  have nx: "0 \<le> ?x" and ny: "0 \<le> ?y" by (rule lval_nonneg)+
  consider "?i = 0 \<and> ?j = 0" | "?j < ?i" | "?i < ?j" | "?i = ?j" "0 < ?i" by linarith
  then show ?thesis
  proof cases
    case 1
    then have "?x = 0" "?y = 0"
      using used_limbs_zero_iff [of "mpi_p X"] used_limbs_zero_iff [of "mpi_p Y"] by (simp_all add: mpi_n_def)
    with 1 show ?thesis by (simp add: mpi_cmp_mpi_def mpi_val_def)
  next
    case 2
    then have "0 < used_limbs (mpi_p X) (length (mpi_p X))" by (simp add: mpi_n_def)
    from lval_used_lower [OF this] have lo: "2 ^ (LENGTH('a) * (?i - 1)) \<le> ?x"
      by (simp add: mpi_n_def)
    have "(2 :: int) ^ (LENGTH('a) * ?j) \<le> 2 ^ (LENGTH('a) * (?i - 1))"
      using 2 by (intro power_increasing) auto
    with lo uy have "?y < ?x" by linarith
    with 2 assms ny show ?thesis by (auto simp: mpi_cmp_mpi_def mpi_val_def)
  next
    case 3
    then have "0 < used_limbs (mpi_p Y) (length (mpi_p Y))" by (simp add: mpi_n_def)
    from lval_used_lower [OF this] have lo: "2 ^ (LENGTH('a) * (?j - 1)) \<le> ?y"
      by (simp add: mpi_n_def)
    have "(2 :: int) ^ (LENGTH('a) * ?i) \<le> 2 ^ (LENGTH('a) * (?j - 1))"
      using 3 by (intro power_increasing) auto
    with lo ux have "?x < ?y" by linarith
    with 3 assms nx show ?thesis by (auto simp: mpi_cmp_mpi_def mpi_val_def)
  next
    case 4
    then have "0 < used_limbs (mpi_p X) (length (mpi_p X))" by (simp add: mpi_n_def)
    from lval_used_lower [OF this] have "1 \<le> ?x"
      by (smt (verit) one_le_power)
    then have px: "0 < ?x" by simp
    from 4 have "0 < used_limbs (mpi_p Y) (length (mpi_p Y))" by (simp add: mpi_n_def)
    from lval_used_lower [OF this] have "1 \<le> ?y"
      by (smt (verit) one_le_power)
    then have py: "0 < ?y" by simp
    have c: "cmp_limbs (mpi_p X) (mpi_p Y) ?i (mpi_s X) = mpi_s X * sgn (?x - ?y)"
    proof -
      have "cmp_limbs (mpi_p X) (mpi_p Y) ?i (mpi_s X)
            = mpi_s X * sgn (lval (take ?i (mpi_p X)) - lval (take ?i (mpi_p Y)))"
        using ix jy 4 by (intro cmp_limbs_spec) simp_all
      moreover have "lval (take ?i (mpi_p X)) = ?x"
        using lval_take_used [of "mpi_p X"] by (simp add: mpi_n_def)
      moreover have "lval (take ?i (mpi_p Y)) = ?y"
        using lval_take_used [of "mpi_p Y"] 4 by (simp add: mpi_n_def)
      ultimately show ?thesis by simp
    qed
    from assms px py 4 c show ?thesis
      by (auto simp: mpi_cmp_mpi_def mpi_val_def sgn_if)
  qed
qed

lemma int_mpi_0: "int_mpi (0 :: 'a::len word) = \<lparr>mpi_s = 1, mpi_p = [0]\<rparr>"
  by (simp add: int_mpi_def word_sless_alt)

lemma mpi_cmp_int_0:
  assumes "mpi_s X = 1 \<or> mpi_s X = - 1"
  shows "mpi_cmp_int X 0 = sgn (mpi_val X)"
  using mpi_cmp_mpi_spec [OF assms, of "\<lparr>mpi_s = 1, mpi_p = [0]\<rparr>"]
  by (simp add: mpi_cmp_int_def int_mpi_0 mpi_val_def)

subsection \<open>Carry and borrow chains\<close>

lemma sub_step:
  fixes d c s :: "'a::len word"
  assumes c: "uint c \<le> 1"
  defines "z \<equiv> (of_bool (d < c) :: 'a word)"
  defines "d1 \<equiv> d - c"
  defines "c' \<equiv> (of_bool (d1 < s) :: 'a word) + z"
  shows "uint (d1 - s) = uint d - uint c - uint s + 2 ^ LENGTH('a) * uint c'"
    and "uint c' \<le> 1"
proof -
  define B where "B = (2 :: int) ^ LENGTH('a)"
  define ud uc us ud1 ud2 uz ub where "ud = uint d" and "uc = uint c" and "us = uint s"
    and "ud1 = uint d1" and "ud2 = uint (d1 - s)" and "uz = uint z"
    and "ub = uint (of_bool (d1 < s) :: 'a word)"
  have B2: "2 \<le> B" unfolding B_def using power_increasing [of 1 "LENGTH('a)" "2 :: int"] by simp
  have bd: "ud < B" "0 \<le> ud" "us < B" "0 \<le> us" "0 \<le> uc" "uc \<le> 1"
    unfolding ud_def us_def uc_def B_def using c by (simp_all add: uint_lt2p)
  have d1: "ud1 = (if uc \<le> ud then ud - uc else ud - uc + B)"
    unfolding ud1_def d1_def uc_def ud_def B_def by (simp add: uint_sub_if')
  have d2: "ud2 = (if us \<le> ud1 then ud1 - us else ud1 - us + B)"
    unfolding ud2_def ud1_def us_def B_def by (simp add: uint_sub_if')
  have z: "uz = (if ud < uc then 1 else 0)"
    unfolding uz_def z_def ud_def uc_def by (simp add: word_less_def)
  have b1: "ub = (if ud1 < us then 1 else 0)"
    unfolding ub_def ud1_def us_def by (simp add: word_less_def)
  have nowrap: "ub + uz \<le> 1"
    using z b1 d1 bd B2 by (auto split: if_splits)
  have "uint (of_bool (d1 < s) :: 'a word) + uint z < 2 ^ LENGTH('a)"
    using nowrap B2 unfolding ub_def uz_def B_def by linarith
  then have "uint c' = uint (of_bool (d1 < s) :: 'a word) + uint z"
    unfolding c'_def by (rule uint_add_lem [THEN iffD1])
  then have c': "uint c' = ub + uz" by (simp only: ub_def uz_def)
  show "uint c' \<le> 1" using c' nowrap by simp
  have "ud2 = ud - uc - us + B * (ub + uz)"
    using z b1 d1 d2 bd B2 by (auto split: if_splits)
  then show "uint (d1 - s) = uint d - uint c - uint s + 2 ^ LENGTH('a) * uint c'"
    unfolding c' by (simp add: ud2_def ud_def uc_def us_def B_def)
qed

lemma add_step:
  fixes p c b :: "'a::len word"
  assumes c: "uint c \<le> 1"
  defines "p1 \<equiv> p + c"
  defines "c1 \<equiv> (of_bool (p1 < c) :: 'a word)"
  defines "p2 \<equiv> p1 + b"
  defines "c2 \<equiv> c1 + (of_bool (p2 < b) :: 'a word)"
  shows "uint p2 + 2 ^ LENGTH('a) * uint c2 = uint p + uint c + uint b"
    and "uint c2 \<le> 1"
proof -
  define B where "B = (2 :: int) ^ LENGTH('a)"
  define up uc ub up1 up2 uc1 ub2 where "up = uint p" and "uc = uint c" and "ub = uint b"
    and "up1 = uint p1" and "up2 = uint p2" and "uc1 = uint c1"
    and "ub2 = uint (of_bool (p2 < b) :: 'a word)"
  have B2: "2 \<le> B" unfolding B_def using power_increasing [of 1 "LENGTH('a)" "2 :: int"] by simp
  have bd: "up < B" "0 \<le> up" "ub < B" "0 \<le> ub" "0 \<le> uc" "uc \<le> 1"
    unfolding up_def ub_def uc_def B_def using c by (simp_all add: uint_lt2p)
  have p1: "up1 = (if up + uc < B then up + uc else up + uc - B)"
    unfolding up1_def p1_def up_def uc_def B_def by (simp add: uint_plus_if')
  have p2: "up2 = (if up1 + ub < B then up1 + ub else up1 + ub - B)"
    unfolding up2_def p2_def up1_def ub_def B_def by (simp add: uint_plus_if')
  have c1: "uc1 = (if up1 < uc then 1 else 0)"
    unfolding uc1_def c1_def up1_def uc_def by (simp add: word_less_def)
  have b2: "ub2 = (if up2 < ub then 1 else 0)"
    unfolding ub2_def up2_def ub_def by (simp add: word_less_def)
  have nowrap: "uc1 + ub2 \<le> 1"
    using c1 b2 p1 p2 bd B2 by (auto split: if_splits)
  have "uint c1 + uint (of_bool (p2 < b) :: 'a word) < 2 ^ LENGTH('a)"
    using nowrap B2 unfolding uc1_def ub2_def B_def by linarith
  then have "uint c2 = uint c1 + uint (of_bool (p2 < b) :: 'a word)"
    unfolding c2_def by (rule uint_add_lem [THEN iffD1])
  then have c2: "uint c2 = uc1 + ub2" by (simp only: uc1_def ub2_def)
  show "uint c2 \<le> 1" using c2 nowrap by simp
  have "up2 + B * (uc1 + ub2) = up + uc + ub"
    using c1 b2 p1 p2 bd B2 by (auto split: if_splits)
  then show "uint p2 + 2 ^ LENGTH('a) * uint c2 = uint p + uint c + uint b"
    unfolding c2 by (simp add: up2_def up_def uc_def ub_def B_def)
qed

lemma carry_step:
  fixes p c :: "'a::len word"
  shows "uint (p + c) + 2 ^ LENGTH('a) * uint (of_bool (p + c < c) :: 'a word) = uint p + uint c"
proof -
  define B where "B = (2 :: int) ^ LENGTH('a)"
  define up uc up1 uc1 where "up = uint p" and "uc = uint c" and "up1 = uint (p + c)"
    and "uc1 = uint (of_bool (p + c < c) :: 'a word)"
  have bd: "up < B" "0 \<le> up" "uc < B" "0 \<le> uc"
    unfolding up_def uc_def B_def by (simp_all add: uint_lt2p)
  have p1: "up1 = (if up + uc < B then up + uc else up + uc - B)"
    unfolding up1_def up_def uc_def B_def by (simp add: uint_plus_if')
  have c1: "uc1 = (if up1 < uc then 1 else 0)"
    unfolding uc1_def up1_def uc_def by (simp add: word_less_def)
  have "up1 + B * uc1 = up + uc" using p1 c1 bd by (auto split: if_splits)
  then show ?thesis by (simp add: up1_def uc1_def up_def uc_def B_def)
qed

lemma borrow_step:
  fixes d c :: "'a::len word"
  shows "uint (d - c) = uint d - uint c + 2 ^ LENGTH('a) * uint (of_bool (d < c) :: 'a word)"
  by (simp add: uint_sub_if' word_less_def)

lemma sub_borrow_spec:
  assumes "uint c \<le> lval ds"
  shows "\<exists>r. sub_borrow ds c = Inr r \<and> length r = length ds \<and> lval r = lval ds - uint (c :: 'a::len word)"
  using assms
proof (induction ds arbitrary: c)
  case Nil
  then have "uint c = 0" using uint_ge_0 [of c] by simp
  then show ?case by (simp add: uint_0_iff)
next
  case (Cons d ds)
  show ?case
  proof (cases "c = 0")
    case True
    then show ?thesis by simp
  next
    case False
    define B where "B = (2 :: int) ^ LENGTH('a)"
    have Bp: "0 < B" by (simp add: B_def)
    have lv: "lval (x # xs) = uint x + B * lval xs" for x :: "'a word" and xs
      by (simp add: B_def)
    define z where "z = (of_bool (d < c) :: 'a word)"
    have st: "uint (d - c) = uint d - uint c + B * uint z"
      unfolding z_def B_def by (rule borrow_step)
    have zle: "uint z \<le> lval ds"
    proof (cases "d < c")
      case True
      then have "uint d < uint c" by (simp add: word_less_def)
      with Cons.prems have "0 < B * lval ds" unfolding lv by linarith
      then have "0 < lval ds" using Bp by (simp add: zero_less_mult_iff)
      with True show ?thesis by (simp add: z_def)
    next
      case False
      then show ?thesis using lval_nonneg [of ds] by (simp add: z_def)
    qed
    from Cons.IH [OF this] obtain r where
      r: "sub_borrow ds z = Inr r" "length r = length ds" "lval r = lval ds - uint z" by blast
    have "lval ((d - c) # r) = uint (d - c) + B * (lval ds - uint z)" by (simp only: lv r)
    also have "\<dots> = uint (d - c) + B * lval ds - B * uint z" by (simp add: right_diff_distrib)
    also have "\<dots> = lval (d # ds) - uint c" unfolding lv st by simp
    finally have "lval ((d - c) # r) = lval (d # ds) - uint c" .
    then show ?thesis using False r by (simp add: z_def del: lval.simps)
  qed
qed

lemma sub_limbs_spec:
  assumes "uint c \<le> 1" "n \<le> length ss" "n \<le> length ds"
    and "lval (take n ss) + uint c \<le> lval ds"
  shows "\<exists>r. sub_limbs n ss ds c = Inr r \<and> length r = length ds
           \<and> lval r = lval ds - lval (take n ss) - uint (c :: 'a::len word)"
  using assms
proof (induction n arbitrary: ss ds c)
  case 0
  then show ?case using sub_borrow_spec [of c ds] by simp
next
  case (Suc n)
  from Suc.prems obtain s ss' where ss: "ss = s # ss'" by (cases ss) auto
  from Suc.prems obtain d ds' where ds: "ds = d # ds'" by (cases ds) auto
  define B where "B = (2 :: int) ^ LENGTH('a)"
  have Bp: "0 < B" by (simp add: B_def)
  have lv: "lval (x # xs) = uint x + B * lval xs" for x :: "'a word" and xs
    by (simp add: B_def)
  define c' where "c' = (of_bool (d - c < s) :: 'a word) + of_bool (d < c)"
  define d2 where "d2 = d - c - s"
  have st: "uint d2 = uint d - uint c - uint s + B * uint c'" and c': "uint c' \<le> 1"
    using sub_step [OF Suc.prems(1), of d s] by (simp_all add: c'_def d2_def B_def)
  have bd: "0 \<le> uint d2" "uint d2 < B" by (simp_all add: uint_lt2p B_def)
  have pre: "uint s + B * lval (take n ss') + uint c \<le> uint d + B * lval ds'"
    using Suc.prems(4) by (simp add: ss ds lv del: lval.simps)
  have "B * (lval (take n ss') + uint c') < B * (lval ds' + 1)"
    using pre st bd by (simp add: distrib_left)
  then have "lval (take n ss') + uint c' < lval ds' + 1"
    using Bp by (simp add: mult_less_cancel_left)
  then have "lval (take n ss') + uint c' \<le> lval ds'" by simp
  from Suc.IH [OF c' _ _ this] Suc.prems(2,3) obtain r where
    r: "sub_limbs n ss' ds' c' = Inr r" "length r = length ds'"
      "lval r = lval ds' - lval (take n ss') - uint c'"
    by (auto simp: ss ds)
  have "lval (d2 # r) = uint d2 + B * (lval ds' - lval (take n ss') - uint c')" by (simp only: lv r)
  also have "\<dots> = uint d2 + B * lval ds' - B * lval (take n ss') - B * uint c'"
    by (simp add: right_diff_distrib)
  also have "\<dots> = lval (d # ds') - lval (take (Suc n) (s # ss')) - uint c"
    unfolding st by (simp add: lv del: lval.simps)
  finally have "lval (d2 # r) = lval ds - lval (take (Suc n) ss) - uint c" by (simp add: ss ds)
  then show ?case using r by (simp add: ss ds Let_def c'_def d2_def del: lval.simps)
qed

lemma add_carry_spec:
  assumes "i + length ps < MAX_LIMBS cfg"
  shows "\<exists>r. add_carry cfg i ps c = Inr r \<and> lval r = lval ps + uint (c :: 'a::len word)
           \<and> (length r = length ps
                \<or> length r = length ps + 1 \<and> 2 ^ (LENGTH('a) * length ps) \<le> lval r)"
  using assms
proof (induction ps arbitrary: i c)
  case Nil
  have "add_carry cfg (Suc i) [] (of_bool (0 + c < c) :: 'a word) = Inr []"
    by (subst add_carry.simps) simp
  moreover have "c \<noteq> 0 \<Longrightarrow> 1 \<le> uint c" by (rule uint_nonzero)
  ultimately show ?case using Nil by (subst add_carry.simps) (auto simp: uint_0_iff)
next
  case (Cons p ps)
  show ?case
  proof (cases "c = 0")
    case True
    then show ?thesis by (subst add_carry.simps) simp
  next
    case False
    define B where "B = (2 :: int) ^ LENGTH('a)"
    have Bp: "0 \<le> B" by (simp add: B_def)
    have lv: "lval (x # xs) = uint x + B * lval xs" for x :: "'a word" and xs
      by (simp add: B_def)
    define c1 where "c1 = (of_bool (p + c < c) :: 'a word)"
    have st: "uint (p + c) + B * uint c1 = uint p + uint c"
      unfolding c1_def B_def by (rule carry_step)
    from Cons.prems have "Suc i + length ps < MAX_LIMBS cfg" by simp
    from Cons.IH [OF this, of c1] obtain r where
      r: "add_carry cfg (Suc i) ps c1 = Inr r"
         "lval r = lval ps + uint c1"
         "length r = length ps \<or> length r = length ps + 1 \<and> 2 ^ (LENGTH('a) * length ps) \<le> lval r"
      by blast
    have "lval ((p + c) # r) = uint (p + c) + B * (lval ps + uint c1)" by (simp only: lv r)
    also have "\<dots> = uint (p + c) + B * uint c1 + B * lval ps" by (simp add: distrib_left)
    also have "\<dots> = lval (p # ps) + uint c" unfolding st lv by simp
    finally have v: "lval ((p + c) # r) = lval (p # ps) + uint c" .
    have g: "length ((p + c) # r) = length (p # ps)
           \<or> length ((p + c) # r) = length (p # ps) + 1
              \<and> 2 ^ (LENGTH('a) * length (p # ps)) \<le> lval ((p + c) # r)"
    proof (cases "length r = length ps")
      case True
      then show ?thesis by simp
    next
      case False
      with r(3) have l: "length r = length ps + 1" and ge: "2 ^ (LENGTH('a) * length ps) \<le> lval r"
        by auto
      have "B * 2 ^ (LENGTH('a) * length ps) \<le> B * lval r" by (rule mult_left_mono [OF ge Bp])
      also have "\<dots> \<le> lval ((p + c) # r)" unfolding lv by simp
      finally have "2 ^ (LENGTH('a) * length (p # ps)) \<le> lval ((p + c) # r)"
        by (simp add: B_def power_add del: lval.simps)
      with l show ?thesis by simp
    qed
    show ?thesis
      using False r(1) v g
      by (subst add_carry.simps) (simp add: c1_def del: lval.simps)
  qed
qed

lemma add_limbs_spec:
  assumes "uint c \<le> 1" "length bs \<le> length ps" "i + length ps < MAX_LIMBS cfg"
  shows "\<exists>r. add_limbs cfg i bs ps c = Inr r \<and> lval r = lval ps + lval bs + uint (c :: 'a::len word)
           \<and> (length r = length ps
                \<or> length r = length ps + 1 \<and> 2 ^ (LENGTH('a) * length ps) \<le> lval r)"
  using assms
proof (induction bs arbitrary: i ps c)
  case Nil
  then show ?case using add_carry_spec [of i ps cfg c] by simp
next
  case (Cons b bs)
  from Cons.prems obtain p ps' where ps: "ps = p # ps'" by (cases ps) auto
  define B where "B = (2 :: int) ^ LENGTH('a)"
  have Bp: "0 \<le> B" by (simp add: B_def)
  have lv: "lval (x # xs) = uint x + B * lval xs" for x :: "'a word" and xs
    by (simp add: B_def)
  define c2 where "c2 = (of_bool (p + c < c) :: 'a word) + of_bool (p + c + b < b)"
  define p2 where "p2 = p + c + b"
  have st: "uint p2 + B * uint c2 = uint p + uint c + uint b" and c2: "uint c2 \<le> 1"
    using add_step [OF Cons.prems(1), of p b] by (simp_all add: c2_def p2_def B_def)
  from Cons.prems have "length bs \<le> length ps'" "Suc i + length ps' < MAX_LIMBS cfg"
    by (simp_all add: ps)
  from Cons.IH [OF c2 this] obtain r where
    r: "add_limbs cfg (Suc i) bs ps' c2 = Inr r" "lval r = lval ps' + lval bs + uint c2"
       "length r = length ps' \<or> length r = length ps' + 1 \<and> 2 ^ (LENGTH('a) * length ps') \<le> lval r"
    by blast
  have "lval (p2 # r) = uint p2 + B * (lval ps' + lval bs + uint c2)" by (simp only: lv r)
  also have "\<dots> = uint p2 + B * uint c2 + B * lval ps' + B * lval bs" by (simp add: distrib_left)
  also have "\<dots> = lval (p # ps') + lval (b # bs) + uint c" unfolding st lv by simp
  finally have v: "lval (p2 # r) = lval ps + lval (b # bs) + uint c" by (simp add: ps)
  have g: "length (p2 # r) = length ps
         \<or> length (p2 # r) = length ps + 1 \<and> 2 ^ (LENGTH('a) * length ps) \<le> lval (p2 # r)"
  proof (cases "length r = length ps'")
    case True
    then show ?thesis by (simp add: ps)
  next
    case False
    with r(3) have l: "length r = length ps' + 1" and ge: "2 ^ (LENGTH('a) * length ps') \<le> lval r"
      by auto
    have "B * 2 ^ (LENGTH('a) * length ps') \<le> B * lval r" by (rule mult_left_mono [OF ge Bp])
    also have "\<dots> \<le> lval (p2 # r)" unfolding lv by simp
    finally have "2 ^ (LENGTH('a) * length ps) \<le> lval (p2 # r)"
      by (simp add: B_def ps power_add del: lval.simps)
    with l show ?thesis by (simp add: ps)
  qed
  show ?case using r(1) v g by (simp add: ps Let_def c2_def p2_def del: lval.simps)
qed

subsection \<open>Unsigned and signed addition and subtraction\<close>

lemma used_limbs_mono:
  assumes "lval (xs :: 'a::len word list) \<le> lval (ys :: 'a word list)"
  shows "used_limbs xs (length xs) \<le> used_limbs ys (length ys)"
proof (cases "used_limbs xs (length xs) = 0")
  case True
  then show ?thesis by simp
next
  case False
  then have "0 < used_limbs xs (length xs)" by simp
  from lval_used_lower [OF this] have "2 ^ (LENGTH('a) * (used_limbs xs (length xs) - 1)) \<le> lval xs" .
  also note assms
  also note lval_used_upper [of ys]
  finally have "(2 :: int) ^ (LENGTH('a) * (used_limbs xs (length xs) - 1))
      < 2 ^ (LENGTH('a) * used_limbs ys (length ys))" .
  then have "LENGTH('a) * (used_limbs xs (length xs) - 1) < LENGTH('a) * used_limbs ys (length ys)"
    by (simp add: power_strict_increasing_iff)
  then have "used_limbs xs (length xs) - 1 < used_limbs ys (length ys)" by simp
  then show ?thesis by simp
qed

lemma mpi_sub_abs_spec:
  assumes le: "lval (mpi_p B0) \<le> lval (mpi_p A)"
    and sz: "mpi_n A \<le> MAX_LIMBS cfg" "mpi_n B0 \<le> MAX_LIMBS cfg"
    and al: "xa \<longrightarrow> X = A"
  shows "\<exists>X'. mpi_sub_abs cfg xa xb X A B0 = Inr X' \<and> mpi_s X' = 1
           \<and> lval (mpi_p X') = lval (mpi_p A) - lval (mpi_p B0)
           \<and> (xa \<longrightarrow> mpi_n X' = mpi_n X)
           \<and> (\<not> xa \<longrightarrow> mpi_p A \<noteq> [] \<longrightarrow> mpi_n X' = max (mpi_n X) (copy_len A))
           \<and> mpi_n X' \<le> max (mpi_n X) (mpi_n A)"
proof -
  have cmp: "\<not> mpi_cmp_abs A B0 < 0" using le by (simp add: mpi_cmp_abs_spec sgn_if)
  obtain B where B: "(if xb then mpi_copy cfg False mpi_init B0 else Inr B0) = Inr B"
    using mpi_copy_ok [OF sz(2), of False mpi_init] by (cases xb) auto
  have Bv: "lval (mpi_p B) = lval (mpi_p B0)"
    using B mpi_copy_spec(1) [of cfg False mpi_init B0 B] by (auto split: if_splits)
  obtain X1 where X1: "(if \<not> xa then mpi_copy cfg False X A else Inr X) = Inr X1"
    using mpi_copy_ok [OF sz(1), of False X] by (cases xa) auto
  have X1v: "lval (mpi_p X1) = lval (mpi_p A)"
    using X1 mpi_copy_spec(1) [of cfg False X A X1] al by (auto split: if_splits)
  have X1n: "xa \<longrightarrow> mpi_n X1 = mpi_n X"
    "\<not> xa \<longrightarrow> mpi_p A \<noteq> [] \<longrightarrow> mpi_n X1 = max (mpi_n X) (copy_len A)"
    using X1 mpi_copy_spec(4) [of cfg False X A X1] by (auto split: if_splits)
  have X1u: "mpi_n X1 \<le> max (mpi_n X) (mpi_n A)"
    using X1 copy_len_le [of A] al
    by (auto simp: mpi_copy_eq mpi_n_def mpi_init_def split: if_splits)
  let ?n = "used_limbs (mpi_p B) (mpi_n B)"
  have n1: "?n \<le> length (mpi_p B)" by (simp add: mpi_n_def used_limbs_le)
  have "?n \<le> used_limbs (mpi_p X1) (length (mpi_p X1))"
    unfolding mpi_n_def by (rule used_limbs_mono) (simp add: Bv X1v le)
  then have n2: "?n \<le> length (mpi_p X1)"
    using used_limbs_le [of "mpi_p X1" "length (mpi_p X1)"] by simp
  have tk: "lval (take ?n (mpi_p B)) = lval (mpi_p B)"
    using lval_take_used [of "mpi_p B"] by (simp add: mpi_n_def)
  have "lval (take ?n (mpi_p B)) + uint (0 :: 'a word) \<le> lval (mpi_p X1)"
    by (simp add: tk Bv X1v le)
  from sub_limbs_spec [OF _ n1 n2 this] obtain r where
    r: "sub_limbs ?n (mpi_p B) (mpi_p X1) 0 = Inr r" "length r = length (mpi_p X1)"
       "lval r = lval (mpi_p X1) - lval (take ?n (mpi_p B)) - uint (0 :: 'a word)"
    by auto
  have "mpi_sub_abs cfg xa xb X A B0 = Inr (X1\<lparr>mpi_s := 1, mpi_p := r\<rparr>)"
    unfolding mpi_sub_abs_def using cmp B X1 r(1)
    by (simp add: Let_def mpi_sub_hlp_def mpi_n_def)
  moreover have "lval r = lval (mpi_p A) - lval (mpi_p B0)" using r(3) by (simp add: tk Bv X1v)
  moreover have "length r = mpi_n X1" using r(2) by (simp add: mpi_n_def)
  ultimately show ?thesis using X1n X1u by (simp add: mpi_n_def)
qed

lemma mpi_add_abs_spec:
  assumes sz: "mpi_n X < MAX_LIMBS cfg" "mpi_n A0 < MAX_LIMBS cfg" "mpi_n B0 < MAX_LIMBS cfg"
    and al: "xa \<longrightarrow> X = A0" "xb \<longrightarrow> X = B0" "\<not> (xa \<and> xb)"
  shows "\<exists>X'. mpi_add_abs cfg xa xb X A0 (B0 :: 'a::len word mpi) = Inr X' \<and> mpi_s X' = 1
           \<and> lval (mpi_p X') = lval (mpi_p A0) + lval (mpi_p B0)
           \<and> mpi_n X' \<le> max (mpi_n X) (max (mpi_n A0) (mpi_n B0)) + 1
           \<and> (xa \<longrightarrow> mpi_n X \<le> mpi_n X')
           \<and> (lval (mpi_p A0) + lval (mpi_p B0) < 2 ^ (LENGTH('a) * k)
                \<longrightarrow> mpi_n X' \<le> max k (max (mpi_n X) (max (mpi_n A0) (mpi_n B0))))"
proof -
  define A where "A = (if xb then X else A0)"
  define B where "B = (if xb then A0 else B0)"
  have AB: "lval (mpi_p A) + lval (mpi_p B) = lval (mpi_p A0) + lval (mpi_p B0)"
    using al by (auto simp: A_def B_def)
  have szA: "mpi_n A < MAX_LIMBS cfg" and szB: "mpi_n B < MAX_LIMBS cfg"
    using sz by (simp_all add: A_def B_def)
  have nAB: "max (mpi_n A) (mpi_n B) \<le> max (mpi_n X) (max (mpi_n A0) (mpi_n B0))"
    by (auto simp: A_def B_def)
  obtain X1 where X1: "(if \<not> xa \<and> \<not> xb then mpi_copy cfg False X A else Inr X) = Inr X1"
    using mpi_copy_ok [of A cfg False X] szA by (cases "\<not> xa \<and> \<not> xb") auto
  have X1v: "lval (mpi_p X1) = lval (mpi_p A)"
    using X1 mpi_copy_spec(1) [of cfg False X A X1] al by (auto simp: A_def split: if_splits)
  have X1n: "mpi_n X1 \<le> max (mpi_n X) (mpi_n A)"
    using X1 copy_len_le [of A]
    by (auto simp: mpi_copy_eq mpi_n_def mpi_init_def split: if_splits)
  have X1g: "xa \<longrightarrow> mpi_n X1 = mpi_n X" using X1 by auto
  have nab: "(xa \<and> xb) = False" using al(3) by simp
  have Bal: "(if xa \<and> xb then X1\<lparr>mpi_s := 1\<rparr> else B) = B" unfolding nab by simp
  let ?j = "used_limbs (mpi_p B) (mpi_n B)"
  have jB: "?j \<le> mpi_n B" by (rule used_limbs_le)
  then have "?j \<le> MAX_LIMBS cfg" using szB by simp
  from mpi_grow_spec [OF this, of "X1\<lparr>mpi_s := 1\<rparr>"] have
    X2: "mpi_grow cfg (X1\<lparr>mpi_s := 1\<rparr>) ?j
           = Inr (X1\<lparr>mpi_s := 1, mpi_p := mpi_p X1 @ replicate (?j - mpi_n X1) 0\<rparr>)"
    by (simp add: mpi_n_def)
  let ?ps = "mpi_p X1 @ replicate (?j - mpi_n X1) 0"
  have lps: "length ?ps = max (mpi_n X1) ?j" by (auto simp: mpi_n_def)
  have vps: "lval ?ps = lval (mpi_p A)" by (simp add: lval_append X1v)
  have tk: "lval (take ?j (mpi_p B)) = lval (mpi_p B)"
    using lval_take_used [of "mpi_p B"] by (simp add: mpi_n_def)
  have l1: "length (take ?j (mpi_p B)) \<le> length ?ps" using jB by (simp add: lps mpi_n_def)
  have l2: "0 + length ?ps < MAX_LIMBS cfg"
    using X1n jB szA szB sz(1) unfolding lps by simp
  from add_limbs_spec [OF _ l1 l2, of 0] obtain r where
    r: "add_limbs cfg 0 (take ?j (mpi_p B)) ?ps 0 = Inr r"
       "lval r = lval ?ps + lval (take ?j (mpi_p B)) + uint (0 :: 'a word)"
       "length r = length ?ps \<or> length r = length ?ps + 1 \<and> 2 ^ (LENGTH('a) * length ?ps) \<le> lval r"
    by auto
  have res: "mpi_add_abs cfg xa xb X A0 B0 = Inr (X1\<lparr>mpi_s := 1, mpi_p := r\<rparr>)"
    unfolding mpi_add_abs_def Let_def A_def [symmetric] B_def [symmetric] X1 chk_simps Bal
    unfolding nab using X2 r(1) by (simp add: mpi_n_def)
  have rv: "lval r = lval (mpi_p A0) + lval (mpi_p B0)" using r(2) by (simp add: vps tk AB)
  have rl: "length r \<le> max (mpi_n X) (max (mpi_n A0) (mpi_n B0)) + 1"
    using r(3) X1n jB nAB unfolding lps by auto
  have rg: "xa \<longrightarrow> mpi_n X \<le> length r"
  proof
    assume xa
    with X1g have "mpi_n X1 = mpi_n X" by simp
    then show "mpi_n X \<le> length r" using r(3) unfolding lps by auto
  qed
  have rk: "lval (mpi_p A0) + lval (mpi_p B0) < 2 ^ (LENGTH('a) * k) \<longrightarrow>
      length r \<le> max k (max (mpi_n X) (max (mpi_n A0) (mpi_n B0)))"
  proof
    assume lt: "lval (mpi_p A0) + lval (mpi_p B0) < 2 ^ (LENGTH('a) * k)"
    show "length r \<le> max k (max (mpi_n X) (max (mpi_n A0) (mpi_n B0)))"
    proof (cases "length r = length ?ps")
      case True
      then show ?thesis using X1n jB nAB unfolding lps by auto
    next
      case False
      with r(3) have l: "length r = length ?ps + 1" and ge: "2 ^ (LENGTH('a) * length ?ps) \<le> lval r"
        by auto
      define m where "m = length ?ps"
      from ge lt rv have "(2 :: int) ^ (LENGTH('a) * m) < 2 ^ (LENGTH('a) * k)"
        unfolding m_def by linarith
      then have "(2 :: int) ^ (LENGTH('a) * length ?ps) < 2 ^ (LENGTH('a) * k)" by (simp only: m_def)
      then have "LENGTH('a) * length ?ps < LENGTH('a) * k" by (simp add: power_strict_increasing_iff)
      then have "length ?ps < k" by simp
      with l show ?thesis by simp
    qed
  qed
  show ?thesis using res rv rl rg rk by (simp add: mpi_n_def)
qed

lemma lval_pos_nonempty: "0 < lval xs \<Longrightarrow> xs \<noteq> []"
  by auto

lemma mpi_add_mpi_spec:
  fixes A B X :: "'a::len word mpi"
  assumes sA: "mpi_s A = 1 \<or> mpi_s A = - 1" and sB: "mpi_s B = 1 \<or> mpi_s B = - 1"
    and sz: "mpi_n X < MAX_LIMBS cfg" "mpi_n A < MAX_LIMBS cfg" "mpi_n B < MAX_LIMBS cfg"
    and al: "xa \<longrightarrow> X = A" "xb \<longrightarrow> X = B" "\<not> (xa \<and> xb)"
  shows "\<exists>X'. mpi_add_mpi cfg xa xb X A B = Inr X' \<and> (mpi_s X' = 1 \<or> mpi_s X' = - 1)
           \<and> mpi_val X' = mpi_val A + mpi_val B
           \<and> (mpi_val X' = 0 \<longrightarrow> mpi_s X' = mpi_s A)
           \<and> (xa \<longrightarrow> mpi_n X \<le> mpi_n X')
           \<and> (\<bar>mpi_val A + mpi_val B\<bar> < 2 ^ (LENGTH('a) * k)
                \<longrightarrow> mpi_n X' \<le> max k (max (mpi_n X) (max (mpi_n A) (mpi_n B))))"
proof -
  let ?a = "lval (mpi_p A)" and ?b = "lval (mpi_p B)"
  have na: "0 \<le> ?a" and nb: "0 \<le> ?b" by (rule lval_nonneg)+
  have szA: "mpi_n A \<le> MAX_LIMBS cfg" and szB: "mpi_n B \<le> MAX_LIMBS cfg" using sz by simp_all
  consider (diff_ge) "mpi_s A * mpi_s B < 0" "?b \<le> ?a"
    | (diff_lt) "mpi_s A * mpi_s B < 0" "?a < ?b"
    | (same) "\<not> mpi_s A * mpi_s B < 0" by linarith
  then show ?thesis
  proof cases
    case diff_ge
    from mpi_sub_abs_spec [OF diff_ge(2) szA szB al(1), of xb] obtain X' where
      X': "mpi_sub_abs cfg xa xb X A B = Inr X'" "lval (mpi_p X') = ?a - ?b"
        "xa \<longrightarrow> mpi_n X' = mpi_n X" "mpi_n X' \<le> max (mpi_n X) (mpi_n A)" by blast
    have "mpi_add_mpi cfg xa xb X A B = Inr (X'\<lparr>mpi_s := mpi_s A\<rparr>)"
      using diff_ge X'(1) by (simp add: mpi_add_mpi_def Let_def mpi_cmp_abs_spec sgn_if)
    moreover have "mpi_val (X'\<lparr>mpi_s := mpi_s A\<rparr>) = mpi_val A + mpi_val B"
      using diff_ge(1) sA sB X'(2) by (auto simp: mpi_val_def algebra_simps)
    ultimately show ?thesis using sA X'(3,4) by (auto simp: mpi_n_def)
  next
    case diff_lt
    have le: "?a \<le> ?b" using diff_lt by simp
    have ne: "mpi_p B \<noteq> []" using diff_lt(2) na by auto
    have neq: "xa \<Longrightarrow> \<not> xb" using al(3) by auto
    from mpi_sub_abs_spec [OF le szB szA al(2), of xa] obtain X' where
      X': "mpi_sub_abs cfg xb xa X B A = Inr X'" "lval (mpi_p X') = ?b - ?a"
        "xb \<longrightarrow> mpi_n X' = mpi_n X"
        "\<not> xb \<longrightarrow> mpi_p B \<noteq> [] \<longrightarrow> mpi_n X' = max (mpi_n X) (copy_len B)"
        "mpi_n X' \<le> max (mpi_n X) (mpi_n B)" by blast
    have "mpi_add_mpi cfg xa xb X A B = Inr (X'\<lparr>mpi_s := - mpi_s A\<rparr>)"
      using diff_lt X'(1) by (simp add: mpi_add_mpi_def Let_def mpi_cmp_abs_spec sgn_if)
    moreover have "mpi_val (X'\<lparr>mpi_s := - mpi_s A\<rparr>) = mpi_val A + mpi_val B"
      using diff_lt(1) sA sB X'(2) by (auto simp: mpi_val_def algebra_simps)
    moreover have "mpi_val (X'\<lparr>mpi_s := - mpi_s A\<rparr>) \<noteq> 0"
      using diff_lt(2) sA X'(2) by (auto simp: mpi_val_def)
    moreover have "xa \<longrightarrow> mpi_n X \<le> mpi_n X'" using X'(4) ne neq by auto
    ultimately show ?thesis using sA X'(5) by (auto simp: mpi_n_def)
  next
    case same
    from mpi_add_abs_spec [OF sz al, of k] obtain X' where
      X': "mpi_add_abs cfg xa xb X A B = Inr X'" "lval (mpi_p X') = ?a + ?b"
        "xa \<longrightarrow> mpi_n X \<le> mpi_n X'"
        "?a + ?b < 2 ^ (LENGTH('a) * k) \<longrightarrow> mpi_n X' \<le> max k (max (mpi_n X) (max (mpi_n A) (mpi_n B)))"
      by blast
    have "mpi_add_mpi cfg xa xb X A B = Inr (X'\<lparr>mpi_s := mpi_s A\<rparr>)"
      using same X'(1) by (simp add: mpi_add_mpi_def Let_def)
    moreover have v: "mpi_val (X'\<lparr>mpi_s := mpi_s A\<rparr>) = mpi_val A + mpi_val B"
      and av: "\<bar>mpi_val A + mpi_val B\<bar> = ?a + ?b"
      using same sA sB X'(2) na nb by (auto simp: mpi_val_def algebra_simps)
    ultimately show ?thesis using sA X'(3,4) by (auto simp: mpi_n_def)
  qed
qed

lemma mpi_sub_mpi_spec:
  fixes A B X :: "'a::len word mpi"
  assumes sA: "mpi_s A = 1 \<or> mpi_s A = - 1" and sB: "mpi_s B = 1 \<or> mpi_s B = - 1"
    and sz: "mpi_n X < MAX_LIMBS cfg" "mpi_n A < MAX_LIMBS cfg" "mpi_n B < MAX_LIMBS cfg"
    and al: "xa \<longrightarrow> X = A" "xb \<longrightarrow> X = B"
  shows "\<exists>X'. mpi_sub_mpi cfg xa xb X A B = Inr X' \<and> (mpi_s X' = 1 \<or> mpi_s X' = - 1)
           \<and> mpi_val X' = mpi_val A - mpi_val B
           \<and> (mpi_val X' = 0 \<longrightarrow> mpi_s X' = mpi_s A)
           \<and> (xa \<longrightarrow> mpi_n X \<le> mpi_n X')
           \<and> (\<bar>mpi_val A - mpi_val B\<bar> < 2 ^ (LENGTH('a) * k)
                \<longrightarrow> mpi_n X' \<le> max k (max (mpi_n X) (max (mpi_n A) (mpi_n B))))"
proof -
  let ?a = "lval (mpi_p A)" and ?b = "lval (mpi_p B)"
  have na: "0 \<le> ?a" and nb: "0 \<le> ?b" by (rule lval_nonneg)+
  have szA: "mpi_n A \<le> MAX_LIMBS cfg" and szB: "mpi_n B \<le> MAX_LIMBS cfg" using sz by simp_all
  consider (same_ge) "mpi_s A * mpi_s B > 0" "?b \<le> ?a"
    | (same_lt) "mpi_s A * mpi_s B > 0" "?a < ?b"
    | (diff) "\<not> mpi_s A * mpi_s B > 0" by linarith
  then show ?thesis
  proof cases
    case same_ge
    from mpi_sub_abs_spec [OF same_ge(2) szA szB al(1), of xb] obtain X' where
      X': "mpi_sub_abs cfg xa xb X A B = Inr X'" "lval (mpi_p X') = ?a - ?b"
        "xa \<longrightarrow> mpi_n X' = mpi_n X" "mpi_n X' \<le> max (mpi_n X) (mpi_n A)" by blast
    have "mpi_sub_mpi cfg xa xb X A B = Inr (X'\<lparr>mpi_s := mpi_s A\<rparr>)"
      using same_ge X'(1) by (simp add: mpi_sub_mpi_def Let_def mpi_cmp_abs_spec sgn_if)
    moreover have "mpi_val (X'\<lparr>mpi_s := mpi_s A\<rparr>) = mpi_val A - mpi_val B"
      using same_ge(1) sA sB X'(2) by (auto simp: mpi_val_def algebra_simps)
    ultimately show ?thesis using sA X'(3,4) by (auto simp: mpi_n_def)
  next
    case same_lt
    have le: "?a \<le> ?b" using same_lt by simp
    have ne: "mpi_p B \<noteq> []" using same_lt(2) na by auto
    have neq: "xa \<Longrightarrow> \<not> xb" using al same_lt(2) by auto
    from mpi_sub_abs_spec [OF le szB szA al(2), of xa] obtain X' where
      X': "mpi_sub_abs cfg xb xa X B A = Inr X'" "lval (mpi_p X') = ?b - ?a"
        "\<not> xb \<longrightarrow> mpi_p B \<noteq> [] \<longrightarrow> mpi_n X' = max (mpi_n X) (copy_len B)"
        "mpi_n X' \<le> max (mpi_n X) (mpi_n B)" by blast
    have "mpi_sub_mpi cfg xa xb X A B = Inr (X'\<lparr>mpi_s := - mpi_s A\<rparr>)"
      using same_lt X'(1) by (simp add: mpi_sub_mpi_def Let_def mpi_cmp_abs_spec sgn_if)
    moreover have "mpi_val (X'\<lparr>mpi_s := - mpi_s A\<rparr>) = mpi_val A - mpi_val B"
      using same_lt(1) sA sB X'(2) by (auto simp: mpi_val_def algebra_simps)
    moreover have "mpi_val (X'\<lparr>mpi_s := - mpi_s A\<rparr>) \<noteq> 0"
      using same_lt(2) sA X'(2) by (auto simp: mpi_val_def)
    moreover have "xa \<longrightarrow> mpi_n X \<le> mpi_n X'" using X'(3) ne neq by auto
    ultimately show ?thesis using sA X'(4) by (auto simp: mpi_n_def)
  next
    case diff
    have "\<not> (xa \<and> xb)" using al diff sA by auto
    from mpi_add_abs_spec [OF sz al this, of k] obtain X' where
      X': "mpi_add_abs cfg xa xb X A B = Inr X'" "lval (mpi_p X') = ?a + ?b"
        "xa \<longrightarrow> mpi_n X \<le> mpi_n X'"
        "?a + ?b < 2 ^ (LENGTH('a) * k) \<longrightarrow> mpi_n X' \<le> max k (max (mpi_n X) (max (mpi_n A) (mpi_n B)))"
      by blast
    have "mpi_sub_mpi cfg xa xb X A B = Inr (X'\<lparr>mpi_s := mpi_s A\<rparr>)"
      using diff X'(1) by (simp add: mpi_sub_mpi_def Let_def)
    moreover have v: "mpi_val (X'\<lparr>mpi_s := mpi_s A\<rparr>) = mpi_val A - mpi_val B"
      and av: "\<bar>mpi_val A - mpi_val B\<bar> = ?a + ?b"
      using diff sA sB X'(2) na nb by (auto simp: mpi_val_def algebra_simps)
    ultimately show ?thesis using sA X'(3,4) by (auto simp: mpi_n_def)
  qed
qed

subsection \<open>Bits of one limb\<close>

lemma and_limb_mask:
  assumes "LENGTH('a::len) = 2 ^ j"
  shows "(count :: nat) AND (LENGTH('a) - 1) = count mod LENGTH('a)"
  unfolding assms by (simp add: take_bit_eq_mod [symmetric] take_bit_eq_mask mask_eq_exp_minus_1)

lemma or_push_bit_low:
  assumes "0 \<le> r" "r < 2 ^ n"
  shows "push_bit n (y :: int) OR r = y * 2 ^ n + r"
proof -
  have "take_bit n r = r" using assms by (simp add: take_bit_int_eq_self)
  then have "push_bit n y OR r = concat_bit n r y" by (simp add: concat_bit_def or.commute)
  also have "\<dots> = take_bit n r + push_bit n y" by (rule concat_bit_eq)
  finally show ?thesis using \<open>take_bit n r = r\<close> by (simp add: push_bit_eq_mult)
qed

lemma bit_test_iff: "(drop_bit j x AND 1 \<noteq> 0) = bit (x :: 'a::len word) j"
  by (simp add: and_one_eq bit_iff_odd_drop_bit mod_2_eq_odd)

lemma int_div_less:
  assumes "0 < P" "x < Q * (P :: int)"
  shows "x div P < Q"
proof -
  have "x div P * P + x mod P = x" by (rule div_mult_mod_eq)
  moreover have "0 \<le> x mod P" using assms(1) by (rule pos_mod_sign)
  ultimately have "x div P * P < Q * P" using assms(2) by linarith
  then show ?thesis using assms(1) by (simp add: mult_less_cancel_right)
qed

lemma uint_drop_bit: "uint (drop_bit n (x :: 'a::len word)) = uint x div 2 ^ n"
proof -
  have "uint (drop_bit n x) = drop_bit n (take_bit LENGTH('a) (uint x))"
    by (rule unsigned_drop_bit_eq)
  then show ?thesis by (simp add: drop_bit_eq_div take_bit_int_eq_self uint_lt2p)
qed

lemma uint_push_bit_take: "uint (push_bit n (x :: 'a::len word)) = take_bit LENGTH('a) (push_bit n (uint x))"
  by (simp add: unsigned_push_bit_eq)

lemma uint_push_bit: "uint (push_bit n (x :: 'a::len word)) = (uint x * 2 ^ n) mod 2 ^ LENGTH('a)"
  unfolding uint_push_bit_take by (simp only: push_bit_eq_mult take_bit_eq_mod)

lemma uint_shl_limb:
  fixes x r0 :: "'a::len word"
  assumes t: "t1 < LENGTH('a)" and r: "uint r0 < 2 ^ t1"
  shows "uint (push_bit t1 x OR r0) + 2 ^ LENGTH('a) * uint (drop_bit (LENGTH('a) - t1) x)
           = 2 ^ t1 * uint x + uint r0"
    and "uint (drop_bit (LENGTH('a) - t1) x) < 2 ^ t1"
proof -
  define P where "P = (2 :: int) ^ t1"
  define Q where "Q = (2 :: int) ^ (LENGTH('a) - t1)"
  define ux where "ux = uint x"
  have PQ: "(2 :: int) ^ LENGTH('a) = P * Q"
    using t by (simp add: P_def Q_def power_add [symmetric])
  have Qp: "0 < Q" and Pp: "0 < P" by (simp_all add: Q_def P_def)
  have hi: "uint (drop_bit (LENGTH('a) - t1) x) = ux div Q"
    by (simp only: uint_drop_bit Q_def ux_def)
  have "uint (push_bit t1 x) = (ux * P) mod (P * Q)"
    by (simp only: uint_push_bit PQ P_def ux_def)
  also have "\<dots> = (P * ux) mod (P * Q)" by (simp only: mult.commute)
  also have "\<dots> = P * (ux mod Q)" by (simp only: mult_mod_right)
  finally have lo: "uint (push_bit t1 x) = P * (ux mod Q)" .
  have "uint (push_bit t1 x OR r0) = uint (push_bit t1 x) OR uint r0"
    by (rule unsigned_or_eq)
  also have "\<dots> = push_bit t1 (ux mod Q) OR uint r0"
    unfolding lo by (simp only: push_bit_eq_mult P_def mult.commute)
  also have "\<dots> = (ux mod Q) * 2 ^ t1 + uint r0"
    by (rule or_push_bit_low) (use r in simp_all)
  finally have limb: "uint (push_bit t1 x OR r0) = P * (ux mod Q) + uint r0"
    by (simp only: P_def mult.commute)
  have "ux = Q * (ux div Q) + ux mod Q" by (simp only: mult_div_mod_eq)
  then have "P * ux = P * (Q * (ux div Q) + ux mod Q)" by (rule arg_cong)
  then have e: "P * ux = P * Q * (ux div Q) + P * (ux mod Q)"
    by (simp only: distrib_left mult.assoc)
  have "uint (push_bit t1 x OR r0) + P * Q * (ux div Q) = P * ux + uint r0"
    unfolding limb e by (simp only: add.commute add.left_commute)
  then show "uint (push_bit t1 x OR r0) + 2 ^ LENGTH('a) * uint (drop_bit (LENGTH('a) - t1) x)
           = 2 ^ t1 * uint x + uint r0"
    by (simp only: PQ hi P_def ux_def)
  have "ux < P * Q" using uint_lt2p [of x] by (simp only: PQ ux_def)
  then have "ux div Q < P" using Qp by (intro int_div_less)
  then show "uint (drop_bit (LENGTH('a) - t1) x) < 2 ^ t1" by (simp only: hi P_def)
qed

lemma uint_shr_limb:
  fixes x r0 :: "'a::len word"
  assumes t: "v1 < LENGTH('a)" and r: "uint r0 = 2 ^ (LENGTH('a) - v1) * c" "0 \<le> c"
  shows "uint (drop_bit v1 x OR r0) = uint x div 2 ^ v1 + 2 ^ (LENGTH('a) - v1) * c"
    and "uint (push_bit (LENGTH('a) - v1) x) = 2 ^ (LENGTH('a) - v1) * (uint x mod 2 ^ v1)"
proof -
  define P where "P = (2 :: int) ^ v1"
  define Q where "Q = (2 :: int) ^ (LENGTH('a) - v1)"
  define ux where "ux = uint x"
  have PQ: "(2 :: int) ^ LENGTH('a) = Q * P"
    using t by (simp add: P_def Q_def power_add [symmetric])
  have Qp: "0 < Q" and Pp: "0 < P" by (simp_all add: Q_def P_def)
  have "ux < Q * P" using uint_lt2p [of x] by (simp only: PQ ux_def)
  then have lt: "ux div P < Q" using Pp by (intro int_div_less)
  have ge: "0 \<le> ux div P" using Pp by (simp add: pos_imp_zdiv_nonneg_iff ux_def)
  have "uint (drop_bit v1 x OR r0) = uint (drop_bit v1 x) OR uint r0"
    by (rule unsigned_or_eq)
  also have "\<dots> = push_bit (LENGTH('a) - v1) c OR (ux div P)"
    unfolding uint_drop_bit r by (simp only: push_bit_eq_mult P_def or.commute mult.commute ux_def)
  also have "\<dots> = c * 2 ^ (LENGTH('a) - v1) + ux div P"
    by (rule or_push_bit_low) (use lt ge in \<open>simp_all only: Q_def\<close>)
  finally show "uint (drop_bit v1 x OR r0) = uint x div 2 ^ v1 + 2 ^ (LENGTH('a) - v1) * c"
    by (simp only: P_def mult.commute add.commute ux_def)
  have "uint (push_bit (LENGTH('a) - v1) x) = (ux * Q) mod (Q * P)"
    by (simp only: uint_push_bit PQ Q_def ux_def)
  also have "\<dots> = (Q * ux) mod (Q * P)" by (simp only: mult.commute)
  also have "\<dots> = Q * (ux mod P)" by (simp only: mult_mod_right)
  finally show "uint (push_bit (LENGTH('a) - v1) x) = 2 ^ (LENGTH('a) - v1) * (uint x mod 2 ^ v1)"
    by (simp only: P_def Q_def ux_def)
qed

subsection \<open>Most significant bit\<close>

lemma top_bit_spec:
  assumes "uint x < 2 ^ j"
  shows "uint x < 2 ^ top_bit x j \<and> (0 < top_bit x j \<longrightarrow> 2 ^ (top_bit x j - 1) \<le> uint (x :: 'a::len word))"
  using assms
proof (induction j)
  case 0
  then show ?case by simp
next
  case (Suc j)
  show ?case
  proof (cases "bit x j")
    case True
    then have "bit (uint x) j" using bit_imp_le_length [OF True] by (simp add: bit_uint_iff)
    then have "2 ^ j \<le> uint x"
      by (metis bit_int_def dvd_0_right even_numeral linorder_not_less div_pos_pos_trivial uint_ge_0)
    with True Suc.prems show ?thesis by (simp add: bit_test_iff)
  next
    case False
    then have nb: "\<not> bit (uint x) j" by (simp add: bit_uint_iff)
    have "uint x < 2 ^ j"
    proof (rule ccontr)
      assume "\<not> uint x < 2 ^ j"
      then have ge: "2 ^ j \<le> uint x" by simp
      have "uint x div 2 ^ j = 1"
        using ge Suc.prems by (intro int_div_pos_eq [where r = "uint x - 2 ^ j"]) simp_all
      then have "bit (uint x) j" by (simp add: bit_int_def)
      with nb show False by simp
    qed
    from Suc.IH [OF this] False show ?thesis by (simp add: bit_test_iff)
  qed
qed

lemma top_bit_le: "top_bit x j \<le> j"
  by (induction j) auto

lemma top_limb_nonzero: "0 < top_limb xs k \<Longrightarrow> xs ! top_limb xs k \<noteq> 0"
  by (induction k) (auto split: if_splits)

lemma top_limb_copy_len: "mpi_p X \<noteq> [] \<Longrightarrow> top_limb (mpi_p X) (mpi_n X - 1) = copy_len X - 1"
  using top_limb_used_length [of "mpi_p X"] by (simp add: copy_len_def mpi_n_def)

lemma mpi_msb_spec:
  fixes X :: "'a::len word mpi"
  assumes ne: "mpi_p X \<noteq> []"
  shows "\<exists>m. mpi_msb X = Inr m \<and> lval (mpi_p X) < 2 ^ m
           \<and> (0 < m \<longrightarrow> 2 ^ (m - 1) \<le> lval (mpi_p X)) \<and> m \<le> LENGTH('a) * mpi_n X"
proof -
  define i where "i = top_limb (mpi_p X) (mpi_n X - 1)"
  define x where "x = mpi_p X ! i"
  define tb where "tb = top_bit x LENGTH('a)"
  define P where "P = (2 :: int) ^ (LENGTH('a) * i)"
  have Pp: "0 < P" by (simp add: P_def)
  have i1: "i + 1 = copy_len X" using top_limb_copy_len [OF ne] by (simp add: i_def copy_len_def)
  have il: "i < length (mpi_p X)" using copy_len_le [OF ne] i1 by (simp add: mpi_n_def)
  have m: "mpi_msb X = Inr (i * LENGTH('a) + tb)"
    using ne by (simp add: mpi_msb_def Let_def i_def x_def tb_def)
  have "lval (take (Suc i) (mpi_p X)) = lval (mpi_p X)"
    using lval_take_copy_len [of X] i1 by simp
  then have v: "lval (mpi_p X) = lval (take i (mpi_p X)) + P * uint x"
    using il by (simp only: take_Suc_conv_app_nth lval_snoc x_def P_def length_take min_absorb2 less_imp_le)
  have lo: "0 \<le> lval (take i (mpi_p X))" by (rule lval_nonneg)
  have hi: "lval (take i (mpi_p X)) < P"
    using lval_bound [of "take i (mpi_p X)"] il by (simp add: P_def)
  have tbs: "uint x < 2 ^ tb" "0 < tb \<longrightarrow> 2 ^ (tb - 1) \<le> uint x"
    using top_bit_spec [of x "LENGTH('a)"] by (simp_all add: tb_def uint_lt2p)
  have tbl: "tb \<le> LENGTH('a)" by (simp add: tb_def top_bit_le)
  have up: "lval (mpi_p X) < 2 ^ (i * LENGTH('a) + tb)"
  proof -
    have "uint x + 1 \<le> 2 ^ tb" using tbs(1) by simp
    then have "P * (uint x + 1) \<le> P * 2 ^ tb" using Pp by (simp add: mult_left_mono)
    then have "P * uint x + P \<le> P * 2 ^ tb" by (simp add: distrib_left)
    with hi v have "lval (mpi_p X) < P * 2 ^ tb" by linarith
    moreover have "i * LENGTH('a) = LENGTH('a) * i" by (rule mult.commute)
    then have "(2 :: int) ^ (i * LENGTH('a) + tb) = P * 2 ^ tb" by (simp only: P_def power_add)
    ultimately show ?thesis by (simp only:)
  qed
  have low: "0 < i * LENGTH('a) + tb \<longrightarrow> 2 ^ (i * LENGTH('a) + tb - 1) \<le> lval (mpi_p X)"
  proof
    assume pos: "0 < i * LENGTH('a) + tb"
    have tbp: "0 < tb"
    proof (rule ccontr)
      assume "\<not> 0 < tb"
      then have z: "tb = 0" by simp
      with pos have "0 < i" by (cases i) auto
      then have "x \<noteq> 0" using top_limb_nonzero [of "mpi_p X" "mpi_n X - 1"] by (simp add: i_def x_def)
      then have "1 \<le> uint x" by (rule uint_nonzero)
      with tbs(1) z show False by simp
    qed
    with tbs(2) have "2 ^ (tb - 1) \<le> uint x" by simp
    then have "P * 2 ^ (tb - 1) \<le> P * uint x" using Pp by (simp add: mult_left_mono)
    with lo v have "P * 2 ^ (tb - 1) \<le> lval (mpi_p X)" by linarith
    moreover have "i * LENGTH('a) + tb - 1 = LENGTH('a) * i + (tb - 1)"
      using tbp by (simp add: mult.commute [of i])
    then have "(2 :: int) ^ (i * LENGTH('a) + tb - 1) = P * 2 ^ (tb - 1)"
      by (simp only: P_def power_add)
    ultimately show "2 ^ (i * LENGTH('a) + tb - 1) \<le> lval (mpi_p X)"
      by (simp only:)
  qed
  have le: "i * LENGTH('a) + tb \<le> LENGTH('a) * mpi_n X"
  proof -
    have "i * LENGTH('a) + tb \<le> i * LENGTH('a) + LENGTH('a)" using tbl by simp
    also have "\<dots> = LENGTH('a) * Suc i" by (simp add: mult.commute)
    also have "\<dots> \<le> LENGTH('a) * mpi_n X"
      using il unfolding mpi_n_def by (intro mult_le_mono2) simp
    finally show ?thesis .
  qed
  show ?thesis
  proof (intro exI conjI)
    show "mpi_msb X = Inr (i * LENGTH('a) + tb)" by (rule m)
    show "lval (mpi_p X) < 2 ^ (i * LENGTH('a) + tb)" by (rule up)
    show "0 < i * LENGTH('a) + tb \<longrightarrow> 2 ^ (i * LENGTH('a) + tb - 1) \<le> lval (mpi_p X)" by (rule low)
    show "i * LENGTH('a) + tb \<le> LENGTH('a) * mpi_n X" by (rule le)
  qed
qed

text \<open>The bit length of a number is unique.\<close>

lemma bit_length_unique:
  fixes v :: int
  assumes "v < 2 ^ m" "0 < m \<longrightarrow> 2 ^ (m - 1) \<le> v" "v < 2 ^ m'" "0 < m' \<longrightarrow> 2 ^ (m' - 1) \<le> v"
  shows "m = m'"
proof (rule ccontr)
  assume "m \<noteq> m'"
  then consider "m < m'" | "m' < m" by linarith
  then show False
  proof cases
    case 1
    then have p: "(2 :: int) ^ m \<le> 2 ^ (m' - 1)" by (intro power_increasing) auto
    from assms(4) 1 have "2 ^ (m' - 1) \<le> v" by simp
    with p assms(1) show False by linarith
  next
    case 2
    then have p: "(2 :: int) ^ m' \<le> 2 ^ (m - 1)" by (intro power_increasing) auto
    from assms(2) 2 have "2 ^ (m - 1) \<le> v" by simp
    with p assms(3) show False by linarith
  qed
qed

lemma lval_take_small:
  assumes "lval xs < 2 ^ (LENGTH('a) * k)"
  shows "lval (take k xs) = lval (xs :: 'a::len word list)"
proof -
  define P where "P = (2 :: int) ^ (LENGTH('a) * length (take k xs))"
  have e: "lval (take k xs @ drop k xs) = lval (take k xs) + P * lval (drop k xs)"
    unfolding P_def by (rule lval_append)
  have Pp: "0 < P" by (simp add: P_def)
  have "lval (drop k xs) = 0"
  proof (rule ccontr)
    assume "lval (drop k xs) \<noteq> 0"
    then have one: "1 \<le> lval (drop k xs)" using lval_nonneg [of "drop k xs"] by simp
    then have "drop k xs \<noteq> []" by auto
    then have lk: "length (take k xs) = k" by simp
    have "P * 1 \<le> P * lval (drop k xs)" using one Pp by (intro mult_left_mono) simp_all
    then have "P \<le> lval xs" using e lval_nonneg [of "take k xs"] by simp
    then have "2 ^ (LENGTH('a) * k) \<le> lval xs" unfolding P_def lk .
    with assms show False by linarith
  qed
  with e show ?thesis by simp
qed

subsection \<open>Left shift\<close>

lemma shift_l_limbs_eq:
  "i \<le> length xs \<Longrightarrow>
     shift_l_limbs v0 i xs = map (\<lambda>j. if j < v0 then 0 else xs ! (j - v0)) [0..<i] @ drop i xs"
proof (induction i arbitrary: xs)
  case 0
  then show ?case by simp
next
  case (Suc i)
  define v where "v = (if i < v0 then 0 else xs ! (i - v0))"
  have il: "i < length xs" using Suc.prems by simp
  have step: "shift_l_limbs v0 (Suc i) xs = shift_l_limbs v0 i (xs[i := v])"
    by (auto simp: v_def)
  have "shift_l_limbs v0 i (xs[i := v])
        = map (\<lambda>j. if j < v0 then 0 else (xs[i := v]) ! (j - v0)) [0..<i] @ drop i (xs[i := v])"
    using il by (intro Suc.IH) simp
  also have "map (\<lambda>j. if j < v0 then 0 else (xs[i := v]) ! (j - v0)) [0..<i]
        = map (\<lambda>j. if j < v0 then 0 else xs ! (j - v0)) [0..<i]"
    by (rule map_cong) auto
  also have "drop i (xs[i := v]) = v # drop (Suc i) xs"
    using il by (simp add: upd_conv_take_nth_drop)
  finally show ?case unfolding step by (simp add: v_def)
qed

lemma shift_l_limbs_full:
  assumes "v0 \<le> length xs"
  shows "shift_l_limbs v0 (length xs) xs = replicate v0 0 @ take (length xs - v0) xs"
proof -
  have "map (\<lambda>j. if j < v0 then 0 else xs ! (j - v0)) [0..<length xs]
        = replicate v0 0 @ take (length xs - v0) xs"
  proof (rule nth_equalityI)
    show "length (map (\<lambda>j. if j < v0 then 0 else xs ! (j - v0)) [0..<length xs])
          = length (replicate v0 0 @ take (length xs - v0) xs)"
      using assms by simp
  next
    fix j
    assume "j < length (map (\<lambda>j. if j < v0 then 0 else xs ! (j - v0)) [0..<length xs])"
    then have j: "j < length xs" by simp
    show "map (\<lambda>j. if j < v0 then 0 else xs ! (j - v0)) [0..<length xs] ! j
          = (replicate v0 0 @ take (length xs - v0) xs) ! j"
    proof (cases "j < v0")
      case True
      then show ?thesis using j by (simp add: nth_append)
    next
      case False
      then have "j - v0 < length xs - v0" using j by simp
      then show ?thesis using j False by (simp add: nth_append)
    qed
  qed
  then show ?thesis by (simp add: shift_l_limbs_eq)
qed

lemma mod_shift_low:
  fixes l B M y :: int
  assumes "0 \<le> l" "l < B" "0 < M"
  shows "(l + B * y) mod (B * M) = l + B * (y mod M)"
proof -
  have Bp: "0 < B" using assms by linarith
  have y: "y = M * (y div M) + y mod M" by simp
  have r: "0 \<le> y mod M" "y mod M < M" using assms(3) by simp_all
  have "B * (y mod M + 1) \<le> B * M" using r Bp by (intro mult_left_mono) simp_all
  then have up: "l + B * (y mod M) < B * M" using assms(2) by (simp add: distrib_left)
  have lo: "0 \<le> l + B * (y mod M)" using assms(1) r Bp by simp
  have "B * y = B * (M * (y div M) + y mod M)" using y by (rule arg_cong)
  also have "\<dots> = B * (y mod M) + (B * M) * (y div M)"
    by (simp only: distrib_left mult.assoc add.commute)
  finally have "l + B * y = (l + B * (y mod M)) + (B * M) * (y div M)" by (simp only: add.assoc)
  then have "(l + B * y) mod (B * M) = ((l + B * (y mod M)) + (B * M) * (y div M)) mod (B * M)"
    by (rule arg_cong)
  also have "\<dots> = (l + B * (y mod M)) mod (B * M)" by (rule mod_mult_self2)
  also have "\<dots> = l + B * (y mod M)" using lo up by (rule mod_pos_pos_trivial)
  finally show ?thesis .
qed

lemma shift_l_bits_spec:
  fixes xs :: "'a::len word list"
  assumes "t1 < LENGTH('a)" "uint r0 < 2 ^ t1"
  shows "length (shift_l_bits t1 xs r0) = length xs"
    and "lval (shift_l_bits t1 xs r0) = (2 ^ t1 * lval xs + uint r0) mod 2 ^ (LENGTH('a) * length xs)"
  using assms
proof (induction xs arbitrary: r0)
  case Nil
  { case 1 show ?case by simp }
  { case 2 show ?case by simp }
next
  case (Cons x xs)
  { case 1
    have "uint (drop_bit (LENGTH('a) - t1) x) < 2 ^ t1"
      by (rule uint_shl_limb(2) [OF 1(1,2)])
    from Cons.IH(1) [OF 1(1) this] show ?case by simp }
  { case 2
    define B where "B = (2 :: int) ^ LENGTH('a)"
    define M where "M = (2 :: int) ^ (LENGTH('a) * length xs)"
    define T where "T = (2 :: int) ^ t1"
    define r1 where "r1 = drop_bit (LENGTH('a) - t1) x"
    define l where "l = uint (push_bit t1 x OR r0)"
    have lv: "lval (y # ys) = uint y + B * lval ys" for y :: "'a word" and ys
      by (simp add: B_def)
    have st: "l + B * uint r1 = T * uint x + uint r0" and r1: "uint r1 < 2 ^ t1"
      using uint_shl_limb [OF 2(1,2), of x] by (simp_all add: l_def B_def r1_def T_def)
    have IH: "lval (shift_l_bits t1 xs r1) = (T * lval xs + uint r1) mod M"
      using Cons.IH(2) [OF 2(1) r1] by (simp add: M_def T_def)
    have lb: "0 \<le> l" "l < B" by (simp_all add: l_def B_def uint_lt2p)
    have Mp: "0 < M" by (simp add: M_def)
    have "shift_l_bits t1 (x # xs) r0 = (push_bit t1 x OR r0) # shift_l_bits t1 xs r1"
      by (simp only: shift_l_bits.simps r1_def)
    then have "lval (shift_l_bits t1 (x # xs) r0) = l + B * ((T * lval xs + uint r1) mod M)"
      by (simp only: lv IH l_def)
    also have "\<dots> = (l + B * (T * lval xs + uint r1)) mod (B * M)"
      by (rule mod_shift_low [symmetric]) (use lb Mp in simp_all)
    also have "l + B * (T * lval xs + uint r1) = T * (uint x + B * lval xs) + uint r0"
      using st by (simp add: distrib_left mult.left_commute)
    finally have "lval (shift_l_bits t1 (x # xs) r0) = (T * lval (x # xs) + uint r0) mod (B * M)"
      by (simp only: lv)
    moreover have "B * M = 2 ^ (LENGTH('a) * length (x # xs))"
      by (simp add: B_def M_def power_add)
    ultimately show ?case by (simp only: T_def) }
qed

subsection \<open>Limbs as digits of the value\<close>

lemma lval_Cons_div:
  "lval (x # xs) div 2 ^ LENGTH('a) = lval (xs :: 'a::len word list)"
proof -
  define B where "B = (2 :: int) ^ LENGTH('a)"
  have Bp: "0 < B" by (simp add: B_def)
  have u: "0 \<le> uint x" "uint x < B" by (simp_all add: B_def uint_lt2p)
  have "(uint x + B * lval xs) div B = uint x div B + lval xs"
    using Bp by (simp only: div_mult_self2 [OF less_imp_neq [OF Bp, symmetric]])
  also have "uint x div B = 0" using u by (rule div_pos_pos_trivial)
  finally show ?thesis by (simp add: B_def)
qed

lemma lval_nth:
  "k < length xs \<Longrightarrow>
     uint (xs ! k) = lval (xs :: 'a::len word list) div 2 ^ (LENGTH('a) * k) mod 2 ^ LENGTH('a)"
proof (induction xs arbitrary: k)
  case Nil
  then show ?case by simp
next
  case (Cons x xs)
  show ?case
  proof (cases k)
    case 0
    have "(uint x + 2 ^ LENGTH('a) * lval xs) mod 2 ^ LENGTH('a) = uint x mod 2 ^ LENGTH('a)"
      by (rule mod_mult_self2)
    then show ?thesis using 0 by (simp add: uint_lt2p)
  next
    case (Suc k')
    have "(2 :: int) ^ (LENGTH('a) * k) = 2 ^ LENGTH('a) * 2 ^ (LENGTH('a) * k')"
      unfolding Suc by (simp add: power_add)
    then have "lval (x # xs) div 2 ^ (LENGTH('a) * k) = lval (x # xs) div 2 ^ LENGTH('a) div 2 ^ (LENGTH('a) * k')"
      by (simp only: zdiv_zmult2_eq [OF zero_le_power [OF zero_le_numeral]])
    also have "\<dots> = lval xs div 2 ^ (LENGTH('a) * k')" by (simp only: lval_Cons_div)
    finally show ?thesis using Cons.IH [of k'] Cons.prems Suc by simp
  qed
qed

lemma lval_inj:
  assumes "length xs = length ys" "lval xs = lval (ys :: 'a::len word list)"
  shows "xs = ys"
proof (rule nth_equalityI)
  show "length xs = length ys" by fact
next
  fix k assume k: "k < length xs"
  then have "uint (xs ! k) = uint (ys ! k)" using assms by (simp add: lval_nth)
  then show "xs ! k = ys ! k" by (simp add: word_uint_eq_iff)
qed

lemma lval_update:
  "k < length xs \<Longrightarrow>
     lval (xs[k := v]) = lval (xs :: 'a::len word list) + 2 ^ (LENGTH('a) * k) * (uint v - uint (xs ! k))"
proof (induction xs arbitrary: k)
  case Nil
  then show ?case by simp
next
  case (Cons x xs)
  show ?case
  proof (cases k)
    case 0
    then show ?thesis by simp
  next
    case (Suc k')
    then have "lval ((x # xs)[k := v]) = uint x + 2 ^ LENGTH('a) * lval (xs[k' := v])" by simp
    also have "lval (xs[k' := v]) = lval xs + 2 ^ (LENGTH('a) * k') * (uint v - uint (xs ! k'))"
      using Cons.prems Suc by (intro Cons.IH) simp
    finally show ?thesis unfolding Suc by (simp add: power_add distrib_left)
  qed
qed

subsection \<open>Binary import\<close>

lemma read_byte_step:
  fixes x :: "'a::len word" and b :: "8 word"
  assumes L: "LENGTH('a) = 8 * c" and r: "r < c" and x: "uint x < 2 ^ (8 * r)"
  shows "uint (x OR push_bit (push_bit 3 r) (ucast b)) = uint x + 2 ^ (8 * r) * uint b"
proof -
  have n: "push_bit 3 r = 8 * r" by (simp add: push_bit_eq_mult)
  have le: "8 * r + 8 \<le> LENGTH('a)" using L r by simp
  have b8: "uint b < 2 ^ 8" using uint_lt2p [of b] by simp
  have "(2 :: int) ^ 8 \<le> 2 ^ LENGTH('a)" using le by (intro power_increasing) simp_all
  then have ub: "uint (ucast b :: 'a word) = uint b"
    using b8 by (simp add: unsigned_ucast_eq take_bit_int_eq_self)
  have "push_bit (8 * r) (uint b) < 2 ^ (8 * r) * 2 ^ 8"
    using b8 by (simp add: push_bit_eq_mult)
  also have "\<dots> = 2 ^ (8 * r + 8)" by (simp only: power_add)
  also have "\<dots> \<le> 2 ^ LENGTH('a)" using le by (intro power_increasing) simp_all
  finally have pb: "uint (push_bit (8 * r) (ucast b :: 'a word)) = push_bit (8 * r) (uint b)"
    by (simp add: uint_push_bit_take ub take_bit_int_eq_self)
  have "uint (x OR push_bit (8 * r) (ucast b)) = push_bit (8 * r) (uint b) OR uint x"
    by (simp add: uint_or pb or.commute)
  also have "\<dots> = uint b * 2 ^ (8 * r) + uint x"
    by (rule or_push_bit_low) (use x in simp_all)
  finally show ?thesis by (simp add: n)
qed

lemma rev_drop_take_Suc:
  assumes "n \<le> i" "i < length buf"
  shows "rev (drop n (take (Suc i) buf)) = buf ! i # rev (drop n (take i buf))"
  using assms by (simp add: take_Suc_conv_app_nth)

lemma read_loop_spec:
  fixes xs :: "'a::len word list"
  assumes L: "LENGTH('a) = 8 * c"
  shows "n \<le> i \<Longrightarrow> i \<le> length buf \<Longrightarrow> lval xs < 2 ^ (8 * j) \<Longrightarrow> j + (i - n) \<le> c * length xs \<Longrightarrow>
     \<exists>xs'. read_loop buf n i j xs = Inr xs' \<and> length xs' = length xs
           \<and> lval xs' = lval xs + 2 ^ (8 * j) * lval (rev (drop n (take i buf)))"
proof (induction i arbitrary: j xs)
  case 0
  then show ?case by simp
next
  case (Suc i)
  show ?case
  proof (cases "n = Suc i")
    case True
    then show ?thesis by simp
  next
    case False
    then have ni: "n \<le> i" using Suc.prems(1) by simp
    have il: "i < length buf" using Suc.prems(2) by simp
    define k where "k = j div c"
    define r where "r = j mod c"
    define b where "b = buf ! i"
    define x where "x = xs ! k"
    define v where "v = x OR push_bit (push_bit 3 r) (ucast b)"
    define J where "J = (2 :: int) ^ (8 * j)"
    have cp: "0 < c" using L by (cases c) simp_all
    have jl: "j < c * length xs" using Suc.prems(4) ni by simp
    have rc: "r < c" using cp by (simp add: r_def)
    have j: "j = c * k + r" by (simp add: k_def r_def)
    have kl: "k < length xs"
    proof (rule ccontr)
      assume "\<not> k < length xs"
      then have "c * length xs \<le> c * k" by simp
      with jl j show False by simp
    qed
    have Jk: "J = 2 ^ (8 * r) * 2 ^ (LENGTH('a) * k)"
      unfolding J_def L by (subst j) (simp add: power_add [symmetric] algebra_simps)
    have Jp: "0 < J" by (simp add: J_def)
    have "lval xs div 2 ^ (LENGTH('a) * k) < 2 ^ (8 * r)"
      by (rule int_div_less) (use Suc.prems(3) Jk in \<open>simp_all add: J_def\<close>)
    moreover have "uint x \<le> lval xs div 2 ^ (LENGTH('a) * k)"
      unfolding x_def lval_nth [OF kl]
      by (rule zmod_le_nonneg_dividend) (simp add: pos_imp_zdiv_nonneg_iff lval_nonneg)
    ultimately have xr: "uint x < 2 ^ (8 * r)" by linarith
    have uv: "uint v = uint x + 2 ^ (8 * r) * uint b"
      unfolding v_def by (rule read_byte_step [OF L rc xr])
    have "lval (xs[k := v]) = lval xs + 2 ^ (LENGTH('a) * k) * (uint v - uint x)"
      unfolding x_def by (rule lval_update [OF kl])
    also have "2 ^ (LENGTH('a) * k) * (uint v - uint x) = J * uint b"
      unfolding Jk uv by simp
    finally have l1: "lval (xs[k := v]) = lval xs + J * uint b" .
    have b8: "uint b + 1 \<le> 256" using uint_lt2p [of b] by simp
    have "J * (uint b + 1) \<le> J * 256" using Jp b8 by (intro mult_left_mono) simp_all
    then have "J * uint b + J \<le> J * 256" by (simp only: distrib_left mult_1_right)
    moreover have "lval xs < J" using Suc.prems(3) by (simp only: J_def)
    ultimately have "lval (xs[k := v]) < J * 256" unfolding l1 by linarith
    also have J256: "J * 256 = 2 ^ (8 * Suc j)" by (simp add: J_def power_add)
    finally have small: "lval (xs[k := v]) < 2 ^ (8 * Suc j)" .
    have room: "Suc j + (i - n) \<le> c * length (xs[k := v])" using Suc.prems(4) ni by simp
    from Suc.IH [OF ni _ small room] il obtain xs' where
      r: "read_loop buf n i (Suc j) (xs[k := v]) = Inr xs'" and
      len: "length xs' = length xs" and
      val: "lval xs' = lval (xs[k := v]) + 2 ^ (8 * Suc j) * lval (rev (drop n (take i buf)))"
      by auto
    have step: "read_loop buf n (Suc i) j xs = read_loop buf n i (Suc j) (xs[k := v])"
      using ni kl L cp by (simp add: k_def [symmetric] r_def [symmetric] x_def v_def b_def)
    have "lval (rev (drop n (take (Suc i) buf))) = uint b + 256 * lval (rev (drop n (take i buf)))"
      unfolding rev_drop_take_Suc [OF ni il] b_def by simp
    then have "lval xs + J * lval (rev (drop n (take (Suc i) buf)))
               = (lval xs + J * uint b) + (J * 256) * lval (rev (drop n (take i buf)))"
      by (simp only: distrib_left mult.assoc add.assoc)
    also have "\<dots> = lval xs'"
      unfolding val l1 J256 ..
    finally show ?thesis using step r len by (simp add: J_def)
  qed
qed

lemma lead_zeros_le: "lead_zeros buf \<le> length buf"
  by (induction buf) simp_all

lemma lead_zeros_take: "take (lead_zeros buf) buf = replicate (lead_zeros buf) 0"
  by (induction buf) simp_all

lemma lead_zeros_nth: "lead_zeros buf < length buf \<Longrightarrow> buf ! lead_zeros buf \<noteq> 0"
  by (induction buf) (auto split: if_splits)

lemma lval_rev_lead_zeros: "lval (rev (drop (lead_zeros buf) buf)) = lval (rev buf)"
proof -
  have "buf = replicate (lead_zeros buf) 0 @ drop (lead_zeros buf) buf"
    using append_take_drop_id [of "lead_zeros buf" buf] by (simp only: lead_zeros_take)
  then have "rev buf = rev (drop (lead_zeros buf) buf) @ replicate (lead_zeros buf) 0"
    by (metis rev_append rev_replicate)
  then show ?thesis by (simp add: lval_append)
qed

lemma ceil_div_room:
  assumes "0 < (c :: nat)"
  shows "m \<le> c * ((m + c - 1) div c)"
proof -
  have "m + c - 1 = c * ((m + c - 1) div c) + (m + c - 1) mod c" by simp
  moreover have "(m + c - 1) mod c < c" using assms by simp
  ultimately show ?thesis by linarith
qed

lemma mpi_read_binary_spec:
  fixes X :: "'a::len word mpi"
  assumes L: "LENGTH('a) = 8 * c"
    and lim: "(length buf - lead_zeros buf + c - 1) div c \<le> MAX_LIMBS cfg" "1 \<le> MAX_LIMBS cfg"
  shows "\<exists>X'. mpi_read_binary cfg X buf = Inr X' \<and> mpi_s X' = 1 \<and> mpi_p X' \<noteq> []
           \<and> lval (mpi_p X') = lval (rev (drop (lead_zeros buf) buf))"
proof -
  define nb where "nb = (length buf - lead_zeros buf + c - 1) div c"
  define X1 where "X1 = X\<lparr>mpi_p := mpi_p X @ replicate (nb - mpi_n X) 0\<rparr>"
  define n1 where "n1 = max 1 (mpi_n X1)"
  define X2 :: "'a word mpi" where "X2 = \<lparr>mpi_s = 1, mpi_p = replicate n1 0\<rparr>"
  have cp: "0 < c" using L by (cases c) simp_all
  have c8: "LENGTH('a) div 8 = c" using L by simp
  have g: "mpi_grow cfg X nb = Inr X1"
    unfolding X1_def by (rule mpi_grow_spec) (use lim in \<open>simp add: nb_def\<close>)
  have s: "mpi_lset cfg X1 0 = Inr X2"
    unfolding X2_def n1_def by (rule mpi_lset_0 [OF lim(2)])
  have "nb \<le> mpi_n X1" by (simp add: X1_def mpi_n_def)
  then have nbn: "nb \<le> n1" by (simp add: n1_def)
  have "length buf - lead_zeros buf \<le> c * nb"
    unfolding nb_def by (rule ceil_div_room [OF cp])
  also have "\<dots> \<le> c * n1" using nbn by simp
  finally have room: "0 + (length buf - lead_zeros buf) \<le> c * length (replicate n1 (0 :: 'a word))" by simp
  have "\<exists>xs'. read_loop buf (lead_zeros buf) (length buf) 0 (replicate n1 (0 :: 'a word)) = Inr xs'
          \<and> length xs' = length (replicate n1 (0 :: 'a word))
          \<and> lval xs' = lval (replicate n1 (0 :: 'a word))
              + 2 ^ (8 * 0) * lval (rev (drop (lead_zeros buf) (take (length buf) buf)))"
    by (rule read_loop_spec [OF L lead_zeros_le _ _ room]) simp_all
  then obtain xs' where r: "read_loop buf (lead_zeros buf) (length buf) 0 (replicate n1 (0 :: 'a word)) = Inr xs'"
    and len: "length xs' = n1" and val: "lval xs' = lval (rev (drop (lead_zeros buf) buf))"
    by auto
  have "mpi_read_binary cfg X buf = Inr (X2\<lparr>mpi_p := xs'\<rparr>)"
    unfolding mpi_read_binary_def Let_def c8 nb_def [symmetric]
    by (simp add: g s) (simp add: X2_def r)
  moreover have "xs' \<noteq> []" using len by (auto simp: n1_def)
  ultimately show ?thesis using val by (simp add: X2_def)
qed

subsection \<open>Size in bytes\<close>

lemma pow2_between:
  assumes "(2 :: int) ^ a \<le> v" "v < 2 ^ b"
  shows "a < b"
proof -
  from assms have "(2 :: int) ^ a < 2 ^ b" by linarith
  then show ?thesis by (rule power_less_imp_less_exp [rotated]) simp
qed

lemma mpi_size_spec:
  fixes X :: "'a::len word mpi"
  assumes ne: "mpi_p X \<noteq> []"
    and up: "lval (mpi_p X) < 2 ^ (8 * m)"
    and lo: "0 < m \<longrightarrow> 2 ^ (8 * (m - 1)) \<le> lval (mpi_p X)"
  shows "mpi_size X = Inr m"
proof -
  from mpi_msb_spec [OF ne] obtain M where
    M: "mpi_msb X = Inr M" and Mu: "lval (mpi_p X) < 2 ^ M"
    and Ml: "0 < M \<longrightarrow> 2 ^ (M - 1) \<le> lval (mpi_p X)" by blast
  have "(M + 7) div 8 = m"
  proof (cases "m = 0")
    case True
    have "M = 0"
    proof (rule ccontr)
      assume "M \<noteq> 0"
      then have "(2 :: int) ^ (M - 1) \<le> lval (mpi_p X)" using Ml by simp
      moreover have "(0 :: int) < 2 ^ (M - 1)" by simp
      moreover have "lval (mpi_p X) < 1" using up True by simp
      ultimately show False by linarith
    qed
    then show ?thesis using True by simp
  next
    case False
    then have lo': "2 ^ (8 * (m - 1)) \<le> lval (mpi_p X)" using lo by simp
    have a: "8 * (m - 1) < M" by (rule pow2_between [OF lo' Mu])
    then have "2 ^ (M - 1) \<le> lval (mpi_p X)" using Ml by simp
    then have b: "M - 1 < 8 * m" using up by (rule pow2_between)
    from a b False show ?thesis by simp
  qed
  then show ?thesis by (simp add: mpi_size_def M drop_bit_eq_div)
qed

subsection \<open>Binary export\<close>

definition byte_of :: "int \<Rightarrow> nat \<Rightarrow> 8 word" where
  "byte_of v k = word_of_int (v div 2 ^ (8 * k))"

lemma uint_byte_of: "uint (byte_of v k) = v div 2 ^ (8 * k) mod 2 ^ 8"
  by (simp add: byte_of_def uint_word_of_int)

lemma write_byte:
  fixes xs :: "'a::len word list"
  assumes L: "LENGTH('a) = 8 * c" and jl: "j < c * length xs"
  shows "(ucast (drop_bit (push_bit 3 (j mod c)) (xs ! (j div c))) :: 8 word) = byte_of (lval xs) j"
proof -
  define k where "k = j div c"
  define r where "r = j mod c"
  have cp: "0 < c" using L by (cases c) simp_all
  have rc: "r < c" using cp by (simp add: r_def)
  have j: "j = c * k + r" by (simp add: k_def r_def)
  have kl: "k < length xs"
  proof (rule ccontr)
    assume "\<not> k < length xs"
    then have "c * length xs \<le> c * k" by simp
    with jl j show False by simp
  qed
  have n: "push_bit 3 r = 8 * r" by (simp add: push_bit_eq_mult)
  have x: "uint (xs ! k) = take_bit (8 * c) (drop_bit (8 * c * k) (lval xs))"
    using lval_nth [OF kl] by (simp add: L take_bit_eq_mod drop_bit_eq_div)
  have db: "uint (drop_bit (8 * r) (xs ! k)) = drop_bit (8 * r) (uint (xs ! k))"
    unfolding uint_drop_bit by (simp only: drop_bit_eq_div [where 'a = int])
  have "uint (ucast (drop_bit (8 * r) (xs ! k)) :: 8 word) = take_bit 8 (drop_bit (8 * r) (uint (xs ! k)))"
    unfolding db [symmetric] by (simp add: unsigned_ucast_eq)
  also have "\<dots> = take_bit 8 (drop_bit (8 * c * k + 8 * r) (lval xs))"
  proof -
    have "8 \<le> 8 * c - 8 * r" using rc by simp
    then have "min 8 (8 * c - 8 * r) = 8" by simp
    then show ?thesis
      unfolding x by (simp add: drop_bit_take_bit drop_bit_drop_bit add.commute)
  qed
  also have "8 * c * k + 8 * r = 8 * j" unfolding j by simp
  finally have "uint (ucast (drop_bit (8 * r) (xs ! k)) :: 8 word) = uint (byte_of (lval xs) j)"
    by (simp add: uint_byte_of take_bit_eq_mod drop_bit_eq_div)
  then show ?thesis unfolding k_def r_def n [unfolded r_def] by (simp only: word_uint_eq_iff)
qed

lemma write_loop_spec:
  fixes xs :: "'a::len word list"
  assumes L: "LENGTH('a) = 8 * c"
  shows "j + n \<le> c * length xs \<Longrightarrow> (0 < n \<longrightarrow> n \<le> Suc i \<and> i < length buf) \<Longrightarrow>
     write_loop xs buf i j n
       = Inr (take (Suc i - n) buf @ rev (map (byte_of (lval xs)) [j..<j + n]) @ drop (Suc i) buf)"
proof (induction n arbitrary: buf i j)
  case 0
  then show ?case by simp
next
  case (Suc n)
  define b where "b = byte_of (lval xs) j"
  have cp: "0 < c" using L by (cases c) simp_all
  have c8: "LENGTH('a) div 8 = c" using L by simp
  have jl: "j < c * length xs" using Suc.prems(1) by simp
  have il: "i < length buf" and ni: "n \<le> i" using Suc.prems(2) by simp_all
  have kl: "j div c < length xs"
  proof (rule ccontr)
    assume "\<not> j div c < length xs"
    then have "c * length xs \<le> c * (j div c)" by simp
    also have "\<dots> \<le> j" by simp
    finally show False using jl by simp
  qed
  have step: "write_loop xs buf i j (Suc n) = write_loop xs (buf[i := b]) (i - 1) (Suc j) n"
    using kl il by (simp add: c8 b_def write_byte [OF L jl])
  have IH: "write_loop xs (buf[i := b]) (i - 1) (Suc j) n
       = Inr (take (Suc (i - 1) - n) (buf[i := b]) @ rev (map (byte_of (lval xs)) [Suc j..<Suc j + n])
              @ drop (Suc (i - 1)) (buf[i := b]))"
    by (rule Suc.IH) (use Suc.prems ni il in auto)
  show ?case
  proof (cases "n = 0")
    case True
    then show ?thesis using step il by (simp add: upd_conv_take_nth_drop b_def)
  next
    case False
    then have i1: "Suc (i - 1) = i" using ni by simp
    have up: "[j..<j + Suc n] = j # [Suc j..<Suc j + n]" by (simp add: upt_rec)
    have d: "drop i (buf[i := b]) = b # drop (Suc i) buf"
      using il by (simp add: upd_conv_take_nth_drop)
    have t: "take (i - n) (buf[i := b]) = take (i - n) buf" by simp
    show ?thesis unfolding step IH i1 d t up by (simp add: b_def)
  qed
qed

lemma map_byte_of_rev:
  "map (byte_of (lval (rev ys))) [0..<length ys] = rev ys"
proof (rule nth_equalityI)
  show "length (map (byte_of (lval (rev ys))) [0..<length ys]) = length (rev ys)" by simp
next
  fix k assume "k < length (map (byte_of (lval (rev ys))) [0..<length ys])"
  then have k: "k < length (rev ys)" by simp
  have "uint (rev ys ! k) = uint (byte_of (lval (rev ys)) k)"
    unfolding uint_byte_of lval_nth [OF k] by simp
  then show "map (byte_of (lval (rev ys))) [0..<length ys] ! k = rev ys ! k"
    using k by (simp add: word_uint_eq_iff)
qed

lemma mpi_write_binary_spec:
  fixes X :: "'a::len word mpi"
  assumes L: "LENGTH('a) = 8 * c"
    and ne: "mpi_p X \<noteq> []"
    and v: "lval (mpi_p X) = lval (rev ys)"
    and nz: "ys \<noteq> [] \<longrightarrow> hd ys \<noteq> 0"
  shows "mpi_size X = Inr (length ys)"
    and "length ys \<le> buflen \<Longrightarrow> mpi_write_binary X buflen = Inr (replicate (buflen - length ys) 0 @ ys)"
proof -
  define m where "m = length ys"
  have up: "lval (mpi_p X) < 2 ^ (8 * m)"
    using lval_bound [of "rev ys"] by (simp add: v m_def)
  have lo: "2 ^ (8 * (m - 1)) \<le> lval (mpi_p X)" if "0 < m"
  proof -
    from that obtain y ys' where ys: "ys = y # ys'" by (cases ys) (auto simp: m_def)
    then have y: "y \<noteq> 0" using nz by simp
    define P where "P = (2 :: int) ^ (8 * (m - 1))"
    have "lval (rev ys) = lval (rev ys') + P * uint y"
      unfolding ys P_def m_def by (simp add: lval_snoc)
    moreover have "P * 1 \<le> P * uint y"
      using uint_nonzero [OF y] by (intro mult_left_mono) (simp_all add: P_def)
    moreover have "0 \<le> lval (rev ys')" by (rule lval_nonneg)
    ultimately show ?thesis unfolding P_def [symmetric] v by simp
  qed
  show sz: "mpi_size X = Inr (length ys)"
    unfolding m_def [symmetric] by (rule mpi_size_spec [OF ne up]) (use lo in simp)
  have room: "0 + m \<le> c * length (mpi_p X)"
  proof (cases "m = 0")
    case True
    then show ?thesis by simp
  next
    case False
    then have "2 ^ (8 * (m - 1)) \<le> lval (mpi_p X)" using lo by simp
    then have "8 * (m - 1) < LENGTH('a) * length (mpi_p X)"
      using lval_bound by (rule pow2_between)
    then show ?thesis using False unfolding L by simp
  qed
  show "mpi_write_binary X buflen = Inr (replicate (buflen - length ys) 0 @ ys)" if "length ys \<le> buflen"
  proof -
    have "write_loop (mpi_p X) (replicate buflen 0) (buflen - 1) 0 m
          = Inr (take (Suc (buflen - 1) - m) (replicate buflen 0)
                 @ rev (map (byte_of (lval (mpi_p X))) [0..<0 + m])
                 @ drop (Suc (buflen - 1)) (replicate buflen 0))"
    proof (rule write_loop_spec [OF L room], intro impI conjI)
      assume "0 < m"
      moreover have "m \<le> buflen" using that by (simp only: m_def)
      ultimately show "m \<le> Suc (buflen - 1)" "buflen - 1 < length (replicate buflen (0 :: 8 word))"
        by simp_all
    qed
    also have "rev (map (byte_of (lval (mpi_p X))) [0..<0 + m]) = ys"
      unfolding v m_def by (simp add: map_byte_of_rev)
    also have "take (Suc (buflen - 1) - m) (replicate buflen (0 :: 8 word)) = replicate (buflen - m) 0"
    proof -
      have "min (Suc (buflen - 1) - m) buflen = buflen - m" by (cases buflen) simp_all
      then show ?thesis by simp
    qed
    also have "drop (Suc (buflen - 1)) (replicate buflen (0 :: 8 word)) = []" by simp
    finally show ?thesis using that by (simp add: mpi_write_binary_def sz m_def)
  qed
qed

section \<open>Reading a bit beyond the limbs\<close>

text \<open>
  C10. For every MPI \<open>X\<close> and every position \<open>pos\<close> with \<open>pos \<ge> X.n * biL\<close>,
  \<open>mpi_get_bit\<close> returns 0; it has no error return and does not write to \<open>X\<close> (it is a
  function of \<open>X\<close> and \<open>pos\<close> alone). A freshly initialised MPI has \<open>n = 0\<close>, so every
  position is beyond its limbs.
\<close>

theorem get_bit_beyond_limbs:
  "mpi_n X * LENGTH('a) \<le> pos \<Longrightarrow> mpi_get_bit (X :: 'a::len word mpi) pos = 0"
  by (simp add: mpi_get_bit_def)

theorem get_bit_beyond_limbs_witness:
  "mpi_n (mpi_init :: 32 word mpi) * LENGTH(32) \<le> 7
   \<and> mpi_get_bit (mpi_init :: 32 word mpi) 7 = 0
   \<and> mpi_n \<lparr>mpi_s = - 1, mpi_p = [0xFFFFFFFF :: 32 word]\<rparr> * LENGTH(32) \<le> 32
   \<and> mpi_get_bit \<lparr>mpi_s = - 1, mpi_p = [0xFFFFFFFF :: 32 word]\<rparr> 32 = 0
   \<and> mpi_get_bit \<lparr>mpi_s = - 1, mpi_p = [0xFFFFFFFF :: 32 word]\<rparr> 31 = 1"
  using get_bit_beyond_limbs [of "mpi_init :: 32 word mpi" 7]
    get_bit_beyond_limbs [of "\<lparr>mpi_s = - 1, mpi_p = [0xFFFFFFFF :: 32 word]\<rparr>" 32]
  by (simp add: mpi_n_def mpi_init_def mpi_get_bit_def)

section \<open>Conditional assignment\<close>

lemma safe_cond_assign_0:
  assumes "mpi_n Y \<le> MAX_LIMBS cfg"
  shows "mpi_safe_cond_assign cfg X Y 0 =
     Inr \<lparr>mpi_s = mpi_s X, mpi_p = mpi_p X @ replicate (mpi_n Y - mpi_n X) 0\<rparr>"
  using assms
  apply (simp add: mpi_safe_cond_assign_def mpi_grow_def chk_def mpi_n_def Let_def)
  apply (auto intro!: nth_equalityI simp: nth_append)
  done

lemma safe_cond_assign_1:
  assumes "mpi_n Y \<le> MAX_LIMBS cfg" and "a \<noteq> 0"
  shows "mpi_safe_cond_assign cfg X Y a =
     Inr \<lparr>mpi_s = mpi_s Y, mpi_p = mpi_p Y @ replicate (mpi_n X - mpi_n Y) 0\<rparr>"
  using assms
  apply (simp add: mpi_safe_cond_assign_def mpi_grow_def chk_def mpi_n_def Let_def)
  apply (auto intro!: nth_equalityI simp: nth_append)
  done

text \<open>
  C8. With flag 0, \<open>mpi_safe_cond_assign\<close> leaves the sign and every limb of \<open>X\<close> as they
  are (the array of \<open>X\<close> is only extended by zero limbs up to the length of \<open>Y\<close>, so its
  value is the same); with flag 1 the sign of \<open>X\<close> becomes that of \<open>Y\<close>, the limbs of \<open>X\<close>
  become those of \<open>Y\<close> followed by zero limbs, and the value of \<open>X\<close> is the value of \<open>Y\<close>.
  The only failure is the limit on the number of limbs in \<open>mpi_grow\<close>.
\<close>

theorem safe_cond_assign_spec:
  assumes "mpi_n Y \<le> MAX_LIMBS cfg"
  shows "(\<exists>X'. mpi_safe_cond_assign cfg X Y 0 = Inr X'
            \<and> mpi_s X' = mpi_s X
            \<and> mpi_p X' = mpi_p X @ replicate (mpi_n Y - mpi_n X) 0
            \<and> mpi_val X' = mpi_val X)
       \<and> (\<exists>X'. mpi_safe_cond_assign cfg X Y 1 = Inr X'
            \<and> mpi_s X' = mpi_s Y
            \<and> mpi_p X' = mpi_p Y @ replicate (mpi_n X - mpi_n Y) 0
            \<and> mpi_val X' = mpi_val Y)"
  using safe_cond_assign_0 [OF assms, of X] safe_cond_assign_1 [OF assms, of 1 X]
  by (simp add: mpi_val_def lval_append)

theorem safe_cond_assign_spec_witness:
  "mpi_n \<lparr>mpi_s = - 1, mpi_p = [7, 9 :: 32 word]\<rparr> \<le> MAX_LIMBS (default_config True)
   \<and> mpi_safe_cond_assign (default_config True) \<lparr>mpi_s = 1, mpi_p = [5 :: 32 word]\<rparr>
         \<lparr>mpi_s = - 1, mpi_p = [7, 9]\<rparr> 0 = Inr \<lparr>mpi_s = 1, mpi_p = [5, 0]\<rparr>
   \<and> mpi_safe_cond_assign (default_config True) \<lparr>mpi_s = 1, mpi_p = [5 :: 32 word]\<rparr>
         \<lparr>mpi_s = - 1, mpi_p = [7, 9]\<rparr> 1 = Inr \<lparr>mpi_s = - 1, mpi_p = [7, 9]\<rparr>"
  using safe_cond_assign_spec [of "\<lparr>mpi_s = - 1, mpi_p = [7, 9 :: 32 word]\<rparr>" "default_config True"
      "\<lparr>mpi_s = 1, mpi_p = [5 :: 32 word]\<rparr>"]
  by (auto simp: mpi_n_def default_config_def)

section \<open>Scalar modulus\<close>

text \<open>
  C5. \<open>mpi_mod_int\<close> is to return \<open>A mod b\<close> for every \<open>b > 0\<close>. The loop shifts the
  running remainder \<open>y < b\<close> left by half a limb, in a limb: for \<open>b > 2^biH\<close> the shift can
  overflow. With 32-bit limbs, \<open>A = 2^48\<close> and \<open>b = 65537\<close> the function returns 0, and
  \<open>A mod b = 65536\<close>; with 64-bit limbs the same happens at \<open>A = 2^96\<close>, \<open>b = 2^32 + 1\<close>.
\<close>

theorem mod_int_large_modulus:
  "mpi_mod_int \<lparr>mpi_s = 1, mpi_p = [0 :: 32 word, 0x10000]\<rparr> 65537 = Inr 0
   \<and> mpi_val \<lparr>mpi_s = 1, mpi_p = [0 :: 32 word, 0x10000]\<rparr> mod 65537 = 65536
   \<and> mpi_mod_int \<lparr>mpi_s = 1, mpi_p = [0 :: 64 word, 0x100000000]\<rparr> 0x100000001 = Inr 0
   \<and> mpi_val \<lparr>mpi_s = 1, mpi_p = [0 :: 64 word, 0x100000000]\<rparr> mod 0x100000001 = 0x100000000"
  by code_simp

section \<open>Greatest common divisor\<close>

text \<open>
  C6. \<open>mpi_gcd\<close> is to return the greatest common divisor of \<open>|A|\<close> and \<open>|B|\<close>. For
  \<open>B = 0\<close> the loop runs \<open>TA\<close> down to zero against \<open>TB = 0\<close> and the result is 0:
  \<open>mpi_gcd(5, 0)\<close> is 0 and not 5, while \<open>mpi_gcd(0, 5)\<close> is 5. The two examples
  \<open>gcd(693, 609) = 21\<close> and \<open>gcd(1764, 868) = 28\<close> hold.
\<close>

theorem gcd_zero_second_operand:
  "mpi_gcd (default_config True) mpi_init \<lparr>mpi_s = 1, mpi_p = [5 :: 32 word]\<rparr> \<lparr>mpi_s = 1, mpi_p = [0]\<rparr>
     = Some (Inr \<lparr>mpi_s = 1, mpi_p = [0]\<rparr>)
   \<and> mpi_gcd (default_config True) mpi_init \<lparr>mpi_s = 1, mpi_p = [0 :: 32 word]\<rparr> \<lparr>mpi_s = 1, mpi_p = [5]\<rparr>
     = Some (Inr \<lparr>mpi_s = 1, mpi_p = [5]\<rparr>)
   \<and> mpi_gcd (default_config True) mpi_init \<lparr>mpi_s = 1, mpi_p = [693 :: 32 word]\<rparr> \<lparr>mpi_s = 1, mpi_p = [609]\<rparr>
     = Some (Inr \<lparr>mpi_s = 1, mpi_p = [21]\<rparr>)
   \<and> mpi_gcd (default_config True) mpi_init \<lparr>mpi_s = 1, mpi_p = [1764 :: 32 word]\<rparr> \<lparr>mpi_s = 1, mpi_p = [868]\<rparr>
     = Some (Inr \<lparr>mpi_s = 1, mpi_p = [28]\<rparr>)"
  by code_simp

section \<open>Modular exponentiation\<close>

text \<open>
  C1. \<open>mpi_exp_mod\<close> is to return \<open>A^E mod N\<close> in \<open>[0, N)\<close>. For a negative base the code
  computes with \<open>|A|\<close> and replaces the result \<open>X\<close> by \<open>N - X\<close> whatever the exponent is:
  with an even exponent the result is wrong (\<open>(-2)^2 mod 5\<close> is 4, the code returns 1), and
  when \<open>X = 0\<close> the result is \<open>N\<close>, outside \<open>[0, N)\<close> (\<open>(-5)^1 mod 5\<close> is 0, the code
  returns 5). Both builds (with and without \<open>t_udbl\<close>) agree.
\<close>

theorem exp_mod_negative_base:
  "mpi_exp_mod (default_config True) mpi_init \<lparr>mpi_s = - 1, mpi_p = [2 :: 32 word]\<rparr>
       \<lparr>mpi_s = 1, mpi_p = [2]\<rparr> \<lparr>mpi_s = 1, mpi_p = [5]\<rparr> None
     = Some (Inr (\<lparr>mpi_s = 1, mpi_p = [1, 0]\<rparr>, None))
   \<and> mpi_exp_mod (default_config False) mpi_init \<lparr>mpi_s = - 1, mpi_p = [2 :: 32 word]\<rparr>
       \<lparr>mpi_s = 1, mpi_p = [2]\<rparr> \<lparr>mpi_s = 1, mpi_p = [5]\<rparr> None
     = Some (Inr (\<lparr>mpi_s = 1, mpi_p = [1, 0]\<rparr>, None))
   \<and> mpi_val \<lparr>mpi_s = - 1, mpi_p = [2 :: 32 word]\<rparr> ^ 2 mod 5 = 4
   \<and> mpi_exp_mod (default_config True) mpi_init \<lparr>mpi_s = - 1, mpi_p = [5 :: 32 word]\<rparr>
       \<lparr>mpi_s = 1, mpi_p = [1]\<rparr> \<lparr>mpi_s = 1, mpi_p = [5]\<rparr> None
     = Some (Inr (\<lparr>mpi_s = 1, mpi_p = [5, 0]\<rparr>, None))"
  by code_simp

section \<open>The sign of a zero result\<close>

lemma shift_r_reset_iff:
  assumes "LENGTH('a::len) = 2 ^ j"
  shows "(count div LENGTH('a) > n \<or> (count div LENGTH('a) = n \<and> count AND (LENGTH('a) - 1) > 0))
           \<longleftrightarrow> count > n * LENGTH('a)"
proof -
  have L: "0 < LENGTH('a)" by simp
  have m: "(count :: nat) AND (LENGTH('a) - 1) = count mod LENGTH('a)"
    by (rule and_limb_mask [OF assms])
  have e: "count = count div LENGTH('a) * LENGTH('a) + count mod LENGTH('a)" by simp
  have lt: "count mod LENGTH('a) < LENGTH('a)" by simp
  show ?thesis
  proof
    assume "count div LENGTH('a) > n \<or> (count div LENGTH('a) = n \<and> count AND (LENGTH('a) - 1) > 0)"
    then show "count > n * LENGTH('a)"
    proof
      assume "n < count div LENGTH('a)"
      then have "Suc n \<le> count div LENGTH('a)" by simp
      then have "Suc n * LENGTH('a) \<le> count div LENGTH('a) * LENGTH('a)" by (rule mult_le_mono1)
      also have "\<dots> \<le> count" by simp
      finally have "LENGTH('a) + n * LENGTH('a) \<le> count" by simp
      with L show ?thesis by linarith
    next
      assume "count div LENGTH('a) = n \<and> count AND (LENGTH('a) - 1) > 0"
      with e m show ?thesis by (metis less_add_same_cancel1)
    qed
  next
    assume g: "count > n * LENGTH('a)"
    show "count div LENGTH('a) > n \<or> (count div LENGTH('a) = n \<and> count AND (LENGTH('a) - 1) > 0)"
    proof (cases "count div LENGTH('a) > n")
      case True
      then show ?thesis by simp
    next
      case False
      have "n \<le> count div LENGTH('a)"
        using g L by (simp add: less_eq_div_iff_mult_less_eq less_imp_le)
      with False have eq: "count div LENGTH('a) = n" by simp
      with e g have "0 < count mod LENGTH('a)" by (metis less_add_same_cancel1)
      with eq m show ?thesis by simp
    qed
  qed
qed

lemma mpi_mul_mpi_zero:
  fixes A Z X :: "'a::len word mpi"
  assumes z: "lval (mpi_p Z) = 0" and sz: "mpi_n A \<le> MAX_LIMBS cfg" "1 \<le> MAX_LIMBS cfg"
  shows "mpi_mul_mpi cfg False False X A Z
           = Inr \<lparr>mpi_s = mpi_s A * mpi_s Z,
                  mpi_p = replicate (max 1 (max (mpi_n X) (used_limbs (mpi_p A) (mpi_n A)))) 0\<rparr>"
proof -
  define i where "i = used_limbs (mpi_p A) (mpi_n A)"
  have j: "used_limbs (mpi_p Z) (mpi_n Z) = 0"
    using z used_limbs_zero_iff [of "mpi_p Z"] by (simp add: mpi_n_def)
  have "i \<le> mpi_n A" unfolding i_def by (rule used_limbs_le)
  then have "i \<le> MAX_LIMBS cfg" using sz(1) by simp
  from mpi_grow_spec [OF this, of X]
  have g: "mpi_grow cfg X i = Inr (X\<lparr>mpi_p := mpi_p X @ replicate (i - mpi_n X) 0\<rparr>)" .
  have n: "mpi_n (X\<lparr>mpi_p := mpi_p X @ replicate (i - mpi_n X) 0\<rparr>) = max (mpi_n X) i"
    by (auto simp: mpi_n_def)
  show ?thesis
    unfolding mpi_mul_mpi_def Let_def
    by (simp add: j i_def [symmetric] g mpi_lset_0 [OF sz(2)] n)
qed




section \<open>Binary round trip\<close>



section \<open>Modular inverse\<close>

text \<open>
  A state on which the body of the loop \<open>while( ( TU.p[0] & 1 ) == 0 )\<close> changes nothing, with
  \<open>TU\<close> even, is never left: the loop does not return.
\<close>

lemma inv_halve_fixed_point:
  assumes u: "ld (mpi_p TU) 0 = Inr u" "u AND 1 = 0"
    and b: "inv_halve_body cfg TA TB TU U1 U2 = Inr (TU, U1, U2)"
  shows "inv_halve cfg TA TB TU U1 U2 = None"
proof (cases "inv_halve cfg TA TB TU U1 U2")
  case None
  then show ?thesis .
next
  case (Some y)
  define P where "P = (\<lambda>cfg' TA' TB' TU' U1' U2' (y' :: error + ('a word mpi \<times> 'a word mpi \<times> 'a word mpi)).
     \<not> (cfg' = cfg \<and> TA' = TA \<and> TB' = TB \<and> TU' = TU \<and> U1' = U1 \<and> U2' = U2))"
  have "P cfg TA TB TU U1 U2 y"
  proof (rule inv_halve.raw_induct [where P = P, OF _ Some])
    fix h cfg' TA' TB' TU' U1' U2' y'
    assume IH: "\<And>cfg' TA' TB' TU' U1' U2' y'. h cfg' TA' TB' TU' U1' U2' = Some y' \<Longrightarrow> P cfg' TA' TB' TU' U1' U2' y'"
      and st: "(case ld (mpi_p TU') 0 of
        Inl e \<Rightarrow> Some (Inl e)
      | Inr u \<Rightarrow>
          if u AND 1 = 0 then
            (case inv_halve_body cfg' TA' TB' TU' U1' U2' of
               Inl e \<Rightarrow> Some (Inl e)
             | Inr (TU'', U1'', U2'') \<Rightarrow> h cfg' TA' TB' TU'' U1'' U2'')
          else Some (Inr (TU', U1', U2'))) = Some y'"
    show "P cfg' TA' TB' TU' U1' U2' y'"
      unfolding P_def
    proof
      assume e: "cfg' = cfg \<and> TA' = TA \<and> TB' = TB \<and> TU' = TU \<and> U1' = U1 \<and> U2' = U2"
      with st u b have "h cfg TA TB TU U1 U2 = Some y'" by simp
      from IH [OF this] show False by (simp add: P_def)
    qed
  qed
  then show ?thesis by (simp add: P_def)
qed

lemma inv_mod_one_gcd:
  "mpi_gcd (default_config True) mpi_init \<lparr>mpi_s = 1, mpi_p = [3 :: 32 word]\<rparr> \<lparr>mpi_s = 1, mpi_p = [1]\<rparr>
   = Some (Inr \<lparr>mpi_s = 1, mpi_p = [1]\<rparr>)"
  by code_simp

lemma inv_mod_one_mod:
  "mpi_mod_mpi (default_config True) False mpi_init \<lparr>mpi_s = 1, mpi_p = [3 :: 32 word]\<rparr> \<lparr>mpi_s = 1, mpi_p = [1]\<rparr>
   = Some (Inr \<lparr>mpi_s = 1, mpi_p = [0]\<rparr>)"
  by code_simp

lemma inv_mod_one_setup:
  "mpi_cmp_int \<lparr>mpi_s = 1, mpi_p = [1 :: 32 word]\<rparr> 0 = 1"
  "mpi_cmp_int \<lparr>mpi_s = 1, mpi_p = [1 :: 32 word]\<rparr> 1 = 0"
  "mpi_copy (default_config True) False mpi_init \<lparr>mpi_s = 1, mpi_p = [0 :: 32 word]\<rparr> = Inr \<lparr>mpi_s = 1, mpi_p = [0]\<rparr>"
  "mpi_copy (default_config True) False mpi_init \<lparr>mpi_s = 1, mpi_p = [1 :: 32 word]\<rparr> = Inr \<lparr>mpi_s = 1, mpi_p = [1]\<rparr>"
  "mpi_lset (default_config True) mpi_init (1 :: 32 word) = Inr \<lparr>mpi_s = 1, mpi_p = [1]\<rparr>"
  "mpi_lset (default_config True) mpi_init (0 :: 32 word) = Inr \<lparr>mpi_s = 1, mpi_p = [0]\<rparr>"
  by code_simp+

lemma inv_mod_one_body:
  "inv_halve_body (default_config True) \<lparr>mpi_s = 1, mpi_p = [0 :: 32 word]\<rparr> \<lparr>mpi_s = 1, mpi_p = [1]\<rparr>
     \<lparr>mpi_s = 1, mpi_p = [0]\<rparr> \<lparr>mpi_s = 1, mpi_p = [1]\<rparr> \<lparr>mpi_s = 1, mpi_p = [0]\<rparr>
   = Inr (\<lparr>mpi_s = 1, mpi_p = [0]\<rparr>, \<lparr>mpi_s = 1, mpi_p = [1]\<rparr>, \<lparr>mpi_s = 1, mpi_p = [0]\<rparr>)"
  by code_simp

text \<open>
  C4. \<open>mpi_inv_mod\<close> is to return success exactly when \<open>gcd(A, N) = 1\<close>, for every \<open>N > 0\<close>.
  The modulus \<open>N = 1\<close> passes the check \<open>mpi_cmp_int( N, 0 ) <= 0\<close> and the check of the
  greatest common divisor, \<open>TA = A mod 1\<close> and \<open>TU\<close> are 0, and the first inner loop halves
  \<open>TU = 0\<close> for ever: \<open>U1 = 1\<close> is odd, so \<open>U1\<close> becomes \<open>(U1 + TB) / 2 = 1\<close> and \<open>U2\<close> becomes
  \<open>(U2 - TA) / 2 = 0\<close> again. With \<open>A = 3\<close> and \<open>N = 1\<close> the function does not return (the value
  \<open>None\<close> of the model), where the claim has it return success.
\<close>

theorem inv_mod_modulus_one_diverges:
  "mpi_inv_mod (default_config True) mpi_init \<lparr>mpi_s = 1, mpi_p = [3 :: 32 word]\<rparr> \<lparr>mpi_s = 1, mpi_p = [1]\<rparr>
   = None"
proof -
  have h: "inv_halve (default_config True) \<lparr>mpi_s = 1, mpi_p = [0 :: 32 word]\<rparr> \<lparr>mpi_s = 1, mpi_p = [1]\<rparr>
     \<lparr>mpi_s = 1, mpi_p = [0]\<rparr> \<lparr>mpi_s = 1, mpi_p = [1]\<rparr> \<lparr>mpi_s = 1, mpi_p = [0]\<rparr> = None"
    by (rule inv_halve_fixed_point [where u = 0]) (simp_all add: inv_mod_one_body ld_def)
  have l: "inv_loop (default_config True) \<lparr>mpi_s = 1, mpi_p = [0 :: 32 word]\<rparr> \<lparr>mpi_s = 1, mpi_p = [1]\<rparr>
     ((\<lparr>mpi_s = 1, mpi_p = [0]\<rparr>, \<lparr>mpi_s = 1, mpi_p = [1]\<rparr>, \<lparr>mpi_s = 1, mpi_p = [0]\<rparr>), S) = None" for S
    by (subst inv_loop.simps) (simp add: inv_body_def h chko_def split: prod.split)
  show ?thesis
    unfolding mpi_inv_mod_def
    by (simp add: inv_mod_one_gcd inv_mod_one_mod inv_mod_one_setup l chko_def)
qed

end
